theory Spec2Isabelle
  imports Main "HOL-Library.Sublist"
begin

section \<open>Anchor patching scripts of spacebot\<close>

text \<open>
  The repository holds three Python scripts that patch a source file in place:
  \<^verbatim>\<open>patch_api_bind.py\<close> (replace the first occurrence of a block after a scope anchor),
  \<^verbatim>\<open>patch_nvidia.py\<close> (replace the second occurrence of a block after a scope anchor) and
  \<^verbatim>\<open>patch_context.py\<close> (replace every occurrence of two conflict-marker blocks).
  All three are built from \<^verbatim>\<open>str.find\<close>, slicing, concatenation and \<^verbatim>\<open>str.replace\<close>.

  A Python \<^verbatim>\<open>str\<close> is a sequence of code points. The primitives below are polymorphic in the
  element type, so nothing depends on how a code point is represented; the scripts with
  their literals are instantiated at \<^typ>\<open>string\<close>, whose characters cover the ASCII text of
  the literals.
\<close>

subsection \<open>Python string primitives\<close>

text \<open>
  \<^verbatim>\<open>sub\<close> occurs in \<^verbatim>\<open>s\<close> at index \<^verbatim>\<open>p\<close>: \<^verbatim>\<open>s[p:p+len(sub)] == sub\<close> with \<^verbatim>\<open>p <= len(s)\<close>.
\<close>

definition occurs_at :: "'a list \<Rightarrow> 'a list \<Rightarrow> nat \<Rightarrow> bool" where
  "occurs_at s sub p \<longleftrightarrow> p \<le> length s \<and> prefix sub (drop p s)"

text \<open>
  The scan behind \<^verbatim>\<open>str.find\<close>: the lowest offset at which \<^verbatim>\<open>sub\<close> starts in \<^verbatim>\<open>s\<close>.
  The empty string is found at offset 0 of every string, the empty one included.
\<close>

fun find_offset :: "'a list \<Rightarrow> 'a list \<Rightarrow> nat option" where
  "find_offset sub [] = (if sub = [] then Some 0 else None)"
| "find_offset sub (c # cs) =
     (if prefix sub (c # cs) then Some 0 else map_option Suc (find_offset sub cs))"

text \<open>
  \<^verbatim>\<open>s.find(sub, start)\<close>: the lowest index in \<^verbatim>\<open>s[start:]\<close> where \<^verbatim>\<open>sub\<close> is found, or \<^verbatim>\<open>-1\<close>.
  A negative \<^verbatim>\<open>start\<close> counts from the end and is clipped at 0; a \<^verbatim>\<open>start\<close> beyond the end
  finds nothing, not even the empty string.
\<close>

definition py_find :: "'a list \<Rightarrow> 'a list \<Rightarrow> int \<Rightarrow> int" where
  "py_find s sub start =
     (let n = int (length s);
          st = (if start < 0 then max 0 (start + n) else start)
      in if n < st then - 1
         else (case find_offset sub (drop (nat st) s) of
                 None \<Rightarrow> - 1
               | Some k \<Rightarrow> st + int k))"

text \<open>\<^verbatim>\<open>s[:i]\<close> and \<^verbatim>\<open>s[i:]\<close>; a negative index counts from the end and is clipped at 0.\<close>

definition slice_to :: "'a list \<Rightarrow> int \<Rightarrow> 'a list" where
  "slice_to s i = (if i < 0 then take (nat (int (length s) + i)) s else take (nat i) s)"

definition slice_from :: "'a list \<Rightarrow> int \<Rightarrow> 'a list" where
  "slice_from s i = (if i < 0 then drop (nat (int (length s) + i)) s else drop (nat i) s)"

subsection \<open>Facts about the scan\<close>

lemma occurs_at_iff: "occurs_at s sub p \<longleftrightarrow> (\<exists>zs. drop p s = sub @ zs) \<and> p \<le> length s"
  by (auto simp: occurs_at_def prefix_def)

lemma occurs_at_bound: "occurs_at s sub p \<Longrightarrow> p + length sub \<le> length s"
proof -
  assume "occurs_at s sub p"
  then obtain zs where "drop p s = sub @ zs" and "p \<le> length s"
    by (auto simp: occurs_at_iff)
  then have "length s - p = length sub + length zs"
    by (metis length_append length_drop)
  with \<open>p \<le> length s\<close> show ?thesis by arith
qed

lemma occurs_at_split:
  "occurs_at s sub p \<longleftrightarrow> (\<exists>zs. s = take p s @ sub @ zs \<and> p \<le> length s)"
proof
  assume "occurs_at s sub p"
  then obtain zs where "drop p s = sub @ zs" "p \<le> length s"
    by (auto simp: occurs_at_iff)
  then have "s = take p s @ sub @ zs"
    by (metis append_take_drop_id)
  with \<open>p \<le> length s\<close> show "\<exists>zs. s = take p s @ sub @ zs \<and> p \<le> length s" by blast
next
  assume "\<exists>zs. s = take p s @ sub @ zs \<and> p \<le> length s"
  then obtain zs where s: "s = take p s @ sub @ zs" and p: "p \<le> length s" by blast
  have "drop p s = drop p (take p s @ sub @ zs)" using s by simp
  also have "\<dots> = sub @ zs" using p by simp
  finally show "occurs_at s sub p" using p by (auto simp: occurs_at_iff)
qed

lemma occurs_at_sublist: "occurs_at s sub p \<Longrightarrow> sublist sub s"
  unfolding occurs_at_split sublist_def by blast

lemma sublist_occurs_at: "sublist sub s \<Longrightarrow> \<exists>p. occurs_at s sub p"
proof -
  assume "sublist sub s"
  then obtain ps ss where "s = ps @ sub @ ss" by (auto simp: sublist_def)
  then have "occurs_at s sub (length ps)" by (simp add: occurs_at_def)
  then show ?thesis ..
qed

lemma sublist_iff_occurs: "sublist sub s \<longleftrightarrow> (\<exists>p. occurs_at s sub p)"
  using occurs_at_sublist sublist_occurs_at by blast

lemma occurs_at_Cons: "occurs_at (c # cs) sub (Suc p) \<longleftrightarrow> occurs_at cs sub p"
  by (simp add: occurs_at_def)

lemma occurs_at_0: "occurs_at s sub 0 \<longleftrightarrow> prefix sub s"
  by (simp add: occurs_at_def)

lemma occurs_at_drop: "st \<le> length s \<Longrightarrow> occurs_at (drop st s) sub k \<longleftrightarrow> occurs_at s sub (st + k)"
  by (auto simp: occurs_at_def add.commute)

lemma find_offset_Some:
  "find_offset sub s = Some k \<Longrightarrow> occurs_at s sub k \<and> (\<forall>j<k. \<not> occurs_at s sub j)"
proof (induction s arbitrary: k)
  case Nil
  then show ?case by (simp add: occurs_at_def split: if_splits)
next
  case (Cons c cs)
  show ?case
  proof (cases "prefix sub (c # cs)")
    case True
    with Cons.prems show ?thesis by (simp add: occurs_at_0)
  next
    case False
    with Cons.prems obtain k' where k': "find_offset sub cs = Some k'" "k = Suc k'"
      by auto
    from Cons.IH [OF k'(1)] have ih: "occurs_at cs sub k'" "\<forall>j<k'. \<not> occurs_at cs sub j"
      by auto
    have "\<not> occurs_at (c # cs) sub j" if "j < k" for j
    proof (cases j)
      case 0
      with False show ?thesis by (simp add: occurs_at_0)
    next
      case (Suc j')
      with that k'(2) ih(2) show ?thesis by (simp add: occurs_at_Cons)
    qed
    with ih(1) k'(2) show ?thesis by (simp add: occurs_at_Cons)
  qed
qed

lemma find_offset_None: "find_offset sub s = None \<Longrightarrow> \<not> occurs_at s sub j"
proof (induction s arbitrary: j)
  case Nil
  then show ?case by (simp add: occurs_at_def split: if_splits)
next
  case (Cons c cs)
  then have np: "\<not> prefix sub (c # cs)" and "find_offset sub cs = None"
    by (auto split: if_splits)
  with Cons.IH have "\<not> occurs_at cs sub j'" for j' by blast
  with np show ?case by (cases j) (simp_all add: occurs_at_0 occurs_at_Cons)
qed

lemma py_find_nat:
  "py_find s sub (int st) =
     (if length s < st then - 1
      else (case find_offset sub (drop st s) of None \<Rightarrow> - 1 | Some k \<Rightarrow> int (st + k)))"
  by (simp add: py_find_def Let_def split: option.splits)

lemma py_find_range: "py_find s sub start = - 1 \<or> (\<exists>p. py_find s sub start = int p)"
proof -
  define st where "st = (if start < 0 then max 0 (start + int (length s)) else start)"
  have "0 \<le> st" by (simp add: st_def)
  then have "\<exists>p. st + int k = int p" for k
    by (metis nat_0_le of_nat_add)
  then show ?thesis
    unfolding py_find_def Let_def st_def [symmetric]
    by (auto split: option.splits)
qed

lemma py_find_found:
  assumes "py_find s sub (int st) = int p"
  shows "st \<le> p \<and> occurs_at s sub p \<and> (\<forall>q. st \<le> q \<and> q < p \<longrightarrow> \<not> occurs_at s sub q)"
proof -
  from assms have le: "st \<le> length s"
    by (simp add: py_find_nat split: if_splits)
  with assms obtain k where k0: "find_offset sub (drop st s) = Some k" "int st + int k = int p"
    by (auto simp: py_find_nat split: option.splits)
  from k0(2) have "p = st + k" by arith
  note k = k0(1) this
  from find_offset_Some [OF k(1)]
  have a: "occurs_at (drop st s) sub k" and b: "\<forall>j<k. \<not> occurs_at (drop st s) sub j"
    by auto
  have "\<not> occurs_at s sub q" if "st \<le> q" "q < p" for q
  proof -
    from that k(2) have "q - st < k" by arith
    with b have "\<not> occurs_at (drop st s) sub (q - st)" by blast
    with le that(1) show ?thesis by (simp add: occurs_at_drop)
  qed
  with a le k(2) show ?thesis by (simp add: occurs_at_drop)
qed

lemma py_find_absent:
  assumes "py_find s sub (int st) = - 1" and "st \<le> q"
  shows "\<not> occurs_at s sub q"
proof (cases "length s < st")
  case True
  with assms(2) show ?thesis by (simp add: occurs_at_def)
next
  case False
  with assms(1) have "find_offset sub (drop st s) = None"
    by (simp add: py_find_nat split: option.splits)
  then have "\<not> occurs_at (drop st s) sub (q - st)" by (rule find_offset_None)
  with False assms(2) show ?thesis by (simp add: occurs_at_drop)
qed

lemma py_find_present:
  assumes "occurs_at s sub q" and "st \<le> q"
  shows "\<exists>p. py_find s sub (int st) = int p \<and> p \<le> q"
proof -
  from py_find_range [of s sub "int st"] py_find_absent [OF _ assms(2)] assms(1)
  obtain p where p: "py_find s sub (int st) = int p" by blast
  from py_find_found [OF p] assms have "p \<le> q"
    by (meson not_le_imp_less)
  with p show ?thesis by blast
qed

lemma py_find_least:
  assumes "occurs_at s sub p" and "st \<le> p"
    and "\<And>q. st \<le> q \<Longrightarrow> q < p \<Longrightarrow> \<not> occurs_at s sub q"
  shows "py_find s sub (int st) = int p"
proof -
  from py_find_present [OF assms(1,2)] obtain p' where
    p': "py_find s sub (int st) = int p'" "p' \<le> p" by blast
  from py_find_found [OF p'(1)] have "st \<le> p'" "occurs_at s sub p'" by auto
  with assms(3) p'(2) have "p' = p" by (meson le_neq_implies_less)
  with p'(1) show ?thesis by simp
qed

lemma py_find_absent_iff:
  "py_find s sub 0 = - 1 \<longleftrightarrow> \<not> sublist sub s"
proof
  assume "py_find s sub 0 = - 1"
  then have "py_find s sub (int 0) = - 1" by simp
  then have "\<not> occurs_at s sub q" for q by (rule py_find_absent) simp
  then show "\<not> sublist sub s" by (simp add: sublist_iff_occurs)
next
  assume ns: "\<not> sublist sub s"
  from py_find_range [of s sub 0] show "py_find s sub 0 = - 1"
  proof
    assume "\<exists>p. py_find s sub 0 = int p"
    then obtain p where "py_find s sub (int 0) = int p" by auto
    from py_find_found [OF this] have "occurs_at s sub p" by simp
    with ns show ?thesis by (simp add: sublist_iff_occurs)
  qed
qed

lemma slice_to_nat [simp]: "slice_to s (int p) = take p s"
  by (simp add: slice_to_def)

lemma slice_from_nat [simp]: "slice_from s (int p) = drop p s"
  by (simp add: slice_from_def)

lemma slice_from_nat_add [simp]: "slice_from s (int p + int k) = drop (p + k) s"
  using slice_from_nat [of s "p + k"] by simp

subsection \<open>\<^verbatim>\<open>str.replace\<close>\<close>

text \<open>
  \<^verbatim>\<open>s.replace(old, new)\<close>: a copy of \<^verbatim>\<open>s\<close> with all occurrences of \<^verbatim>\<open>old\<close> replaced by
  \<^verbatim>\<open>new\<close>. Occurrences are taken left to right, each search starting at the end of the
  previous match, and the text put in is not searched again. An empty \<^verbatim>\<open>old\<close> matches
  before every character and at the end, so \<^verbatim>\<open>new\<close> is put at each of these places.
\<close>

function py_replace :: "'a list \<Rightarrow> 'a list \<Rightarrow> 'a list \<Rightarrow> 'a list" where
  "py_replace s old new =
     (if old = [] then new @ concat (map (\<lambda>c. c # new) s)
      else (let i = py_find s old 0 in
            if i = - 1 then s
            else slice_to s i @ new @ py_replace (slice_from s (i + int (length old))) old new))"
  by pat_completeness auto
termination
proof (relation "measure (\<lambda>(s, old, new). length s)")
  show "wf (measure (\<lambda>(s, old, new). length s))" by simp
next
  fix s old new :: "'a list" and i :: int
  assume old: "old \<noteq> []" and i: "i = py_find s old 0" and found: "i \<noteq> - 1"
  from py_find_range [of s old 0] i found obtain p where p: "py_find s old (int 0) = int p"
    by auto
  from py_find_found [OF p] have "p + length old \<le> length s"
    by (simp add: occurs_at_bound)
  with old have "length (drop (p + length old) s) < length s"
    by (cases old) simp_all
  with i p show "((slice_from s (i + int (length old)), old, new), (s, old, new))
      \<in> measure (\<lambda>(s, old, new). length s)"
    by simp
qed

declare py_replace.simps [simp del]

subsection \<open>The scripts\<close>

text \<open>
  What a run of a script leaves behind: the text written back to the target file (if the
  script reached its \<^verbatim>\<open>f.write\<close>), the lines printed, and the exit status.
\<close>

record 'a run =
  wrote :: "'a list option"
  printed :: "string list"
  status :: nat

text \<open>
  \<^verbatim>\<open>patch_api_bind.py\<close>, lines 19 to 26: find the block at or after \<^verbatim>\<open>load_idx\<close> and splice the
  new block over it. The literals of lines 10 to 17 are parameters.
\<close>

definition api_bind_splice :: "'a list \<Rightarrow> int \<Rightarrow> 'a list \<Rightarrow> 'a list \<Rightarrow> 'a run" where
  "api_bind_splice content load_idx old_api_block new_api_block =
     (let idx = py_find content old_api_block load_idx in
      if idx \<noteq> - 1 then
        \<lparr>wrote = Some (slice_to content idx @ new_api_block
                          @ slice_from content (idx + int (length old_api_block))),
         printed = [''Replaced api block''], status = 0\<rparr>
      else \<lparr>wrote = None, printed = [''Could not find api block''], status = 0\<rparr>)"

text \<open>\<^verbatim>\<open>patch_api_bind.py\<close>, lines 6 to 26, the scope anchor of line 6 a parameter.\<close>

definition patch_api_bind :: "'a list \<Rightarrow> 'a list \<Rightarrow> 'a list \<Rightarrow> 'a list \<Rightarrow> 'a run" where
  "patch_api_bind scope old_api_block new_api_block content =
     (let load_idx = py_find content scope 0 in
      if load_idx = - 1 then \<lparr>wrote = None, printed = [], status = 1\<rparr>
      else api_bind_splice content load_idx old_api_block new_api_block)"

text \<open>
  \<^verbatim>\<open>patch_nvidia.py\<close>, lines 25 to 48: find the block at or after \<^verbatim>\<open>load_idx\<close>, find it again
  from the end of that match, and splice the new block over the second match.
\<close>

definition nvidia_splice :: "'a list \<Rightarrow> int \<Rightarrow> 'a list \<Rightarrow> 'a list \<Rightarrow> 'a run" where
  "nvidia_splice content load_idx gemini_block nvidia_block =
     (let first_idx = py_find content gemini_block load_idx in
      if first_idx \<noteq> - 1 then
        (let second_idx = py_find content gemini_block (first_idx + int (length gemini_block)) in
         if second_idx \<noteq> - 1 then
           \<lparr>wrote = Some (slice_to content second_idx @ nvidia_block
                             @ slice_from content (second_idx + int (length gemini_block))),
            printed = [''Replaced second gemini_key block with nvidia_key block.''],
            status = 0\<rparr>
         else \<lparr>wrote = None, printed = [''Could not find second gemini_key block.''],
               status = 0\<rparr>)
      else \<lparr>wrote = None, printed = [''Could not find first gemini_key block.''], status = 0\<rparr>)"

text \<open>\<^verbatim>\<open>patch_nvidia.py\<close>, lines 8 to 48.\<close>

definition patch_nvidia :: "'a list \<Rightarrow> 'a list \<Rightarrow> 'a list \<Rightarrow> 'a list \<Rightarrow> 'a run" where
  "patch_nvidia scope gemini_block nvidia_block content =
     (let load_idx = py_find content scope 0 in
      if load_idx = - 1 then
        \<lparr>wrote = None, printed = [''Could not find load_from_env''], status = 1\<rparr>
      else nvidia_splice content load_idx gemini_block nvidia_block)"

text \<open>
  \<^verbatim>\<open>patch_context.py\<close>: two \<^verbatim>\<open>content.replace\<close> passes (lines 17 and 34), then the file is
  written whatever the passes did.
\<close>

definition patch_context ::
  "'a list \<Rightarrow> 'a list \<Rightarrow> 'a list \<Rightarrow> 'a list \<Rightarrow> 'a list \<Rightarrow> 'a run" where
  "patch_context conflict_1 replacement_1 conflict_2 replacement_2 content =
     (let content1 = py_replace content conflict_1 replacement_1;
          content2 = py_replace content1 conflict_2 replacement_2
      in \<lparr>wrote = Some content2, printed = [], status = 0\<rparr>)"

subsection \<open>The literals of the scripts\<close>

abbreviation nl :: string where
  "nl \<equiv> [CHR 0x0A]"

definition load_from_env :: string where
  \<open>load_from_env = ''pub fn load_from_env''\<close>

definition old_api_block :: string where
  \<open>old_api_block = ''api: ApiConfig::default(),''\<close>

definition new_api_block :: string where
  \<open>new_api_block =
     ''api: {'' @ nl @
     ''                let default_api = ApiConfig::default();'' @ nl @
     ''                ApiConfig {'' @ nl @
     ''                    bind: hosted_api_bind(default_api.bind),'' @ nl @
     ''                    ..default_api'' @ nl @
     ''                }'' @ nl @
     ''            },''\<close>

definition gemini_block :: string where
  \<open>gemini_block =
     ''        if let Some(gemini_key) = llm.gemini_key.clone() {'' @ nl @
     ''            llm.providers'' @ nl @
     ''                .entry("gemini".to_string())'' @ nl @
     ''                .or_insert_with(|| ProviderConfig {'' @ nl @
     ''                    api_type: ApiType::Gemini,'' @ nl @
     ''                    base_url: GEMINI_PROVIDER_BASE_URL.to_string(),'' @ nl @
     ''                    api_key: gemini_key,'' @ nl @
     ''                    name: None,'' @ nl @
     ''                });'' @ nl @
     ''        }''\<close>

definition nvidia_block :: string where
  \<open>nvidia_block =
     ''        if let Some(nvidia_key) = llm.nvidia_key.clone() {'' @ nl @
     ''            llm.providers'' @ nl @
     ''                .entry("nvidia".to_string())'' @ nl @
     ''                .or_insert_with(|| ProviderConfig {'' @ nl @
     ''                    api_type: ApiType::OpenAiCompletions,'' @ nl @
     ''                    base_url: NVIDIA_PROVIDER_BASE_URL.to_string(),'' @ nl @
     ''                    api_key: nvidia_key,'' @ nl @
     ''                    name: None,'' @ nl @
     ''                });'' @ nl @
     ''        }''\<close>

definition conflict_1 :: string where
  \<open>conflict_1 =
     ''<<<<<<< HEAD'' @ nl @
     ''        document_search: None,'' @ nl @
     ''======='' @ nl @
     ''        sandbox,'' @ nl @
     ''        links: Arc::new(arc_swap::ArcSwap::from_pointee(Vec::new())),'' @ nl @
     ''        agent_names: Arc::new(std::collections::HashMap::new()),'' @ nl @
     ''>>>>>>> upstream/main''\<close>

definition replacement_1 :: string where
  \<open>replacement_1 =
     ''        document_search: None,'' @ nl @
     ''        sandbox,'' @ nl @
     ''        links: Arc::new(arc_swap::ArcSwap::from_pointee(Vec::new())),'' @ nl @
     ''        agent_names: Arc::new(std::collections::HashMap::new()),''\<close>

definition conflict_2 :: string where
  \<open>conflict_2 =
     ''<<<<<<< HEAD'' @ nl @
     ''        std::path::PathBuf::from("/tmp"),'' @ nl @
     ''        deps.sqlite_pool.clone(),'' @ nl @
     ''        deps.api_event_tx.clone(),'' @ nl @
     ''        deps.document_search.clone(),'' @ nl @
     ''======='' @ nl @
     ''        deps.sandbox.clone(),'' @ nl @
     ''>>>>>>> upstream/main''\<close>

definition replacement_2 :: string where
  \<open>replacement_2 =
     ''        std::path::PathBuf::from("/tmp"),'' @ nl @
     ''        deps.sqlite_pool.clone(),'' @ nl @
     ''        deps.api_event_tx.clone(),'' @ nl @
     ''        deps.document_search.clone(),'' @ nl @
     ''        deps.sandbox.clone(),''\<close>

text \<open>The three scripts as they stand, as functions of the text read from the target file.\<close>

definition patch_api_bind_py :: "string \<Rightarrow> char run" where
  "patch_api_bind_py content = patch_api_bind load_from_env old_api_block new_api_block content"

definition patch_nvidia_py :: "string \<Rightarrow> char run" where
  "patch_nvidia_py content = patch_nvidia load_from_env gemini_block nvidia_block content"

definition patch_context_py :: "string \<Rightarrow> char run" where
  "patch_context_py content =
     patch_context conflict_1 replacement_1 conflict_2 replacement_2 content"

subsection \<open>The operations the scripts instantiate\<close>

text \<open>
  The scripts define no function: each is one straight-line instance of the same steps,
  with its anchors, its replacement and its occurrence count written in. The definitions of
  this subsection are those steps with the written-in parts as arguments, under the names
  \<^verbatim>\<open>spec.md\<close> section 4.1 gives them (\<^verbatim>\<open>locate\<close> is \<^const>\<open>py_find\<close> itself,
  \<^verbatim>\<open>apply_literal_block\<close> is \<^const>\<open>py_replace\<close> itself). The lemmas after them show that the
  scripts are their instances.

  \<^verbatim>\<open>locate_nth\<close>: the chain \<^verbatim>\<open>first_idx = content.find(block, load_idx)\<close>,
  \<^verbatim>\<open>second_idx = content.find(block, first_idx + len(block))\<close> of \<^verbatim>\<open>patch_nvidia.py\<close>
  (lines 25 to 28), continued to any count \<^verbatim>\<open>n\<close>. The count is 1-indexed; for the count 0,
  which no script uses, nothing is located.
\<close>

fun locate_nth :: "'a list \<Rightarrow> 'a list \<Rightarrow> nat \<Rightarrow> int \<Rightarrow> int" where
  "locate_nth document anchor 0 start_offset = - 1"
| "locate_nth document anchor (Suc 0) start_offset = py_find document anchor start_offset"
| "locate_nth document anchor (Suc (Suc n)) start_offset =
     (let first_idx = py_find document anchor start_offset in
      if first_idx \<noteq> - 1
      then locate_nth document anchor (Suc n) (first_idx + int (length anchor))
      else - 1)"

datatype 'a patch_result = Applied "'a list" | NotFound

text \<open>
  The find-and-splice of both scripts from a given start offset
  (\<^verbatim>\<open>patch_api_bind.py\<close> lines 19 to 21, \<^verbatim>\<open>patch_nvidia.py\<close> lines 25 to 41).
\<close>

definition apply_from ::
  "'a list \<Rightarrow> int \<Rightarrow> 'a list \<Rightarrow> nat \<Rightarrow> 'a list \<Rightarrow> 'a patch_result" where
  "apply_from document start target_anchor occurrence_index replacement =
     (let target_pos = locate_nth document target_anchor occurrence_index start in
      if target_pos = - 1 then NotFound
      else Applied (slice_to document target_pos @ replacement
                      @ slice_from document (target_pos + int (length target_anchor))))"

text \<open>
  \<^verbatim>\<open>apply\<close>: the whole of either script. With a scope anchor the search starts where the
  scope anchor is found, and nothing is searched or spliced when it is not found
  (\<^verbatim>\<open>patch_api_bind.py\<close> lines 6 to 8, \<^verbatim>\<open>patch_nvidia.py\<close> lines 8 to 11); without one the
  search starts at offset 0.
\<close>

definition apply_patch ::
  "'a list \<Rightarrow> 'a list option \<Rightarrow> 'a list \<Rightarrow> nat \<Rightarrow> 'a list \<Rightarrow> 'a patch_result" where
  "apply_patch document scope_anchor target_anchor occurrence_index replacement =
     (case scope_anchor of
        None \<Rightarrow> apply_from document 0 target_anchor occurrence_index replacement
      | Some scope \<Rightarrow>
          (let scope_pos = py_find document scope 0 in
           if scope_pos = - 1 then NotFound
           else apply_from document scope_pos target_anchor occurrence_index replacement))"

text \<open>What a patch result makes the caller write: the new document, or nothing.\<close>

fun persisted :: "'a patch_result \<Rightarrow> 'a list option" where
  "persisted (Applied new_document) = Some new_document"
| "persisted NotFound = None"

text \<open>
  \<^verbatim>\<open>sep.join(segs)\<close>, used to say what replacing every occurrence means: the document is
  cut into the segments between the matches, and the result joins the same segments with
  the replacement.
\<close>

fun join :: "'a list \<Rightarrow> 'a list list \<Rightarrow> 'a list" where
  "join sep [] = []"
| "join sep [s] = s"
| "join sep (s # t # ss) = s @ sep @ join sep (t # ss)"

text \<open>
  A sufficient condition on a marker block and its replacement for a second replace pass
  to find nothing: the first character of the marker is not in the replacement, and no
  proper non-empty suffix of the marker is a prefix of the replacement or has the
  replacement as a prefix (so no marker can start in kept text and run into a replacement).
\<close>

definition no_straddle :: "'a list \<Rightarrow> 'a list \<Rightarrow> bool" where
  "no_straddle marker replacement \<longleftrightarrow>
     (\<forall>k \<in> {1 ..< length marker}.
        \<not> prefix (drop k marker) replacement \<and> \<not> prefix replacement (drop k marker))"

text \<open>
  Whether some non-empty tail of \<open>xs\<close> is a prefix of \<open>R\<close> or has \<open>R\<close> as a prefix: the scan
  that decides \<^const>\<open>no_straddle\<close> on the tail of the marker.
\<close>

fun comparable_tail :: "'a list \<Rightarrow> 'a list \<Rightarrow> bool" where
  "comparable_tail [] R = False"
| "comparable_tail (c # cs) R =
     (prefix (c # cs) R \<or> prefix R (c # cs) \<or> comparable_tail cs R)"

definition resolves_cleanly :: "'a list \<Rightarrow> 'a list \<Rightarrow> bool" where
  "resolves_cleanly marker replacement \<longleftrightarrow>
     marker \<noteq> [] \<and> hd marker \<notin> set replacement \<and> no_straddle marker replacement"

text \<open>
  All the indices at which \<^verbatim>\<open>sub\<close> occurs in \<^verbatim>\<open>s\<close>, overlapping ones included, in
  increasing order: the anchor occurs exactly once when this list has one element.
\<close>

definition occurrences :: "'a list \<Rightarrow> 'a list \<Rightarrow> nat list" where
  "occurrences s sub = filter (occurs_at s sub) [0 ..< Suc (length s)]"

subsection \<open>The scripts are instances of the operations\<close>

lemma api_bind_splice_apply:
  "wrote (api_bind_splice content load_idx old new) =
     persisted (apply_from content load_idx old (Suc 0) new)"
  by (simp add: api_bind_splice_def apply_from_def Let_def)

lemma nvidia_splice_apply:
  "wrote (nvidia_splice content load_idx old new) =
     persisted (apply_from content load_idx old (Suc (Suc 0)) new)"
  by (simp add: nvidia_splice_def apply_from_def Let_def)

lemma patch_api_bind_apply:
  "wrote (patch_api_bind scope old new content) =
     persisted (apply_patch content (Some scope) old (Suc 0) new)"
  by (simp add: patch_api_bind_def apply_patch_def Let_def api_bind_splice_apply)

lemma patch_nvidia_apply:
  "wrote (patch_nvidia scope old new content) =
     persisted (apply_patch content (Some scope) old (Suc (Suc 0)) new)"
  by (simp add: patch_nvidia_def apply_patch_def Let_def nvidia_splice_apply)

subsection \<open>Facts about locating and splicing\<close>

lemma py_find_clip:
  "py_find s sub start =
     py_find s sub (int (nat (if start < 0 then max 0 (start + int (length s)) else start)))"
  by (simp add: py_find_def Let_def)

lemma py_find_occurs: "py_find s sub start = int p \<Longrightarrow> occurs_at s sub p"
  using py_find_found [of s sub "nat (if start < 0 then max 0 (start + int (length s)) else start)" p]
    py_find_clip [of s sub start] by simp

lemma locate_nth_range:
  "locate_nth s sub n start = - 1 \<or> (\<exists>p. locate_nth s sub n start = int p)"
proof (induction s sub n start rule: locate_nth.induct)
  case (1 document anchor start_offset)
  then show ?case by simp
next
  case (2 document anchor start_offset)
  then show ?case by (simp add: py_find_range)
next
  case (3 document anchor n start_offset)
  then show ?case by (simp add: Let_def)
qed

lemma locate_nth_occurs: "locate_nth s sub n start = int p \<Longrightarrow> occurs_at s sub p"
proof (induction s sub n start rule: locate_nth.induct)
  case (1 document anchor start_offset)
  then show ?case by simp
next
  case (2 document anchor start_offset)
  then show ?case by (simp add: py_find_occurs)
next
  case (3 document anchor n start_offset)
  then show ?case by (simp add: Let_def split: if_splits)
qed

lemma locate_nth_ge: "locate_nth s sub n (int st) = int p \<Longrightarrow> st \<le> p"
proof (induction n arbitrary: st rule: less_induct)
  case (less n)
  show ?case
  proof (cases n)
    case 0
    with less.prems show ?thesis by simp
  next
    case (Suc m)
    show ?thesis
    proof (cases m)
      case 0
      with Suc less.prems py_find_found [of s sub st p] show ?thesis by simp
    next
      case (Suc k)
      with \<open>n = Suc m\<close> less.prems
      have f: "py_find s sub (int st) \<noteq> - 1"
        and r: "locate_nth s sub (Suc k) (py_find s sub (int st) + int (length sub)) = int p"
        by (auto simp: Let_def split: if_splits)
      from f py_find_range [of s sub "int st"] obtain q where q: "py_find s sub (int st) = int q"
        by auto
      from py_find_found [OF q] have "st \<le> q" by simp
      from r q have "locate_nth s sub (Suc k) (int (q + length sub)) = int p" by simp
      from less.IH [OF _ this] Suc \<open>n = Suc m\<close> have "q + length sub \<le> p" by simp
      with \<open>st \<le> q\<close> show ?thesis by simp
    qed
  qed
qed

lemma locate_nth_step:
  "locate_nth s sub (Suc (Suc n)) start =
     (let prev = locate_nth s sub (Suc n) start in
      if prev \<noteq> - 1 then py_find s sub (prev + int (length sub)) else - 1)"
proof (induction n arbitrary: start)
  case 0
  show ?case by (simp add: Let_def)
next
  case (Suc n)
  show ?case
  proof (cases "py_find s sub start = - 1")
    case True
    then show ?thesis by (simp add: Let_def)
  next
    case False
    have a: "locate_nth s sub (Suc (Suc (Suc n))) start =
        locate_nth s sub (Suc (Suc n)) (py_find s sub start + int (length sub))"
      using False by (simp add: Let_def)
    have b: "locate_nth s sub (Suc (Suc n)) start =
        locate_nth s sub (Suc n) (py_find s sub start + int (length sub))"
      using False by (simp add: Let_def)
    show ?thesis unfolding a b by (rule Suc.IH)
  qed
qed

lemma apply_from_Applied:
  assumes "apply_from D start A n R = Applied D'"
  shows "\<exists>p. locate_nth D A n start = int p \<and> occurs_at D A p
             \<and> D' = take p D @ R @ drop (p + length A) D"
proof -
  from assms have nf: "locate_nth D A n start \<noteq> - 1"
    by (auto simp: apply_from_def Let_def split: if_splits)
  with locate_nth_range [of D A n start] obtain p where p: "locate_nth D A n start = int p"
    by auto
  with assms have "D' = take p D @ R @ drop (p + length A) D"
    by (simp add: apply_from_def Let_def)
  with p locate_nth_occurs [OF p] show ?thesis by blast
qed

lemma splice_frame:
  assumes "occurs_at D A p" and "D' = take p D @ R @ drop (p + length A) D"
  shows "int (length D') = int (length D) - int (length A) + int (length R)"
    and "take p D' = take p D"
    and "drop (p + length R) D' = drop (p + length A) D"
    and "occurs_at D' R p"
proof -
  from assms(1) have b: "p + length A \<le> length D" by (rule occurs_at_bound)
  then have lp: "length (take p D) = p" by simp
  from b assms(2) show "int (length D') = int (length D) - int (length A) + int (length R)"
    by simp
  from lp assms(2) show "take p D' = take p D" by simp
  from lp assms(2) show "drop (p + length R) D' = drop (p + length A) D" by simp
  from lp assms(2) show "occurs_at D' R p" by (simp add: occurs_at_def)
qed

lemma set_occurrences: "set (occurrences s sub) = {p. occurs_at s sub p}"
  by (auto simp: occurrences_def occurs_at_def simp del: upt_Suc)

lemma occurrences_single:
  "occurrences s sub = [p] \<longleftrightarrow> occurs_at s sub p \<and> (\<forall>q. occurs_at s sub q \<longrightarrow> q = p)"
proof
  assume "occurrences s sub = [p]"
  then have "set (occurrences s sub) = {p}" by simp
  then show "occurs_at s sub p \<and> (\<forall>q. occurs_at s sub q \<longrightarrow> q = p)"
    unfolding set_occurrences by blast
next
  assume a: "occurs_at s sub p \<and> (\<forall>q. occurs_at s sub q \<longrightarrow> q = p)"
  then have s: "set (occurrences s sub) = {p}"
    unfolding set_occurrences by blast
  have d: "distinct (occurrences s sub)"
    by (simp add: occurrences_def)
  from d s show "occurrences s sub = [p]"
    by (metis distinct_card card_1_singleton_iff length_Suc_conv length_0_conv
        list.set_intros(1) singletonD)
qed

lemma py_find_unscoped_absent: "\<not> sublist sub s \<Longrightarrow> py_find s sub start = - 1"
  using py_find_range [of s sub start] py_find_occurs [of s sub start] occurs_at_sublist [of s sub]
  by blast

lemma locate_nth_absent: "\<not> sublist sub s \<Longrightarrow> locate_nth s sub n start = - 1"
  using locate_nth_range [of s sub n start] locate_nth_occurs [of s sub n start]
    occurs_at_sublist [of s sub]
  by blast

lemma persisted_Some: "persisted r = Some D' \<longleftrightarrow> r = Applied D'"
  by (cases r) auto

lemma persisted_None: "persisted r = None \<longleftrightarrow> r = NotFound"
  by (cases r) auto

section \<open>The claims\<close>

subsection \<open>Exactness\<close>

text \<open>
  Claim C1. For every document \<open>D\<close>, anchor \<open>A\<close> that occurs exactly once in \<open>D\<close> (at index \<open>p\<close>,
  and nowhere else) and replacement \<open>R\<close>, the unscoped first-occurrence patch
  \<^verbatim>\<open>apply(D, None, A, 1, R)\<close> returns \<open>Applied\<close> with \<open>D\<close> in which that occurrence is replaced by
  \<open>R\<close>, and the length of the result is \<^verbatim>\<open>len(D) - len(A) + len(R)\<close>. The find-and-splice of
  \<^verbatim>\<open>patch_api_bind.py\<close> (lines 19 to 21) started at offset 0 writes the same text.
\<close>

theorem exactness_unique_anchor:
  assumes "occurs_at D A p" and "\<forall>q. occurs_at D A q \<longrightarrow> q = p"
  shows "apply_patch D None A 1 R = Applied (take p D @ R @ drop (p + length A) D)
       \<and> int (length (take p D @ R @ drop (p + length A) D))
           = int (length D) - int (length A) + int (length R)
       \<and> wrote (api_bind_splice D 0 A R) = Some (take p D @ R @ drop (p + length A) D)"
proof -
  have "py_find D A (int 0) = int p"
  proof (rule py_find_least)
    show "occurs_at D A p" by (rule assms(1))
    show "0 \<le> p" by simp
    show "\<not> occurs_at D A q" if "q < p" for q
      using assms(2) that by auto
  qed
  then have f: "py_find D A 0 = int p" by simp
  then have a: "apply_patch D None A 1 R = Applied (take p D @ R @ drop (p + length A) D)"
    by (simp add: apply_patch_def apply_from_def)
  from splice_frame(1) [OF assms(1) refl]
  have l: "int (length (take p D @ R @ drop (p + length A) D))
           = int (length D) - int (length A) + int (length R)" .
  from f have w: "wrote (api_bind_splice D 0 A R) = Some (take p D @ R @ drop (p + length A) D)"
    by (simp add: api_bind_splice_def)
  from a l w show ?thesis by blast
qed

text \<open>The scenario of the specification: one default block replaced, the next line kept.\<close>

theorem exactness_unique_anchor_witness:
  "apply_patch (''a: Foo::default(),'' @ nl @ ''b: 1'') None ''a: Foo::default(),'' 1 ''a: Bar::new(),''
     = Applied (''a: Bar::new(),'' @ nl @ ''b: 1'')
   \<and> int (length (''a: Bar::new(),'' @ nl @ ''b: 1''))
       = int (length (''a: Foo::default(),'' @ nl @ ''b: 1'')) - int (length ''a: Foo::default(),'')
         + int (length ''a: Bar::new(),'')
   \<and> wrote (api_bind_splice (''a: Foo::default(),'' @ nl @ ''b: 1'') 0 ''a: Foo::default(),''
        ''a: Bar::new(),'') = Some (''a: Bar::new(),'' @ nl @ ''b: 1'')"
proof -
  have "occurrences (''a: Foo::default(),'' @ nl @ ''b: 1'') ''a: Foo::default(),'' = [0]"
    by code_simp
  then have h: "occurs_at (''a: Foo::default(),'' @ nl @ ''b: 1'') ''a: Foo::default(),'' 0"
     "\<forall>q. occurs_at (''a: Foo::default(),'' @ nl @ ''b: 1'') ''a: Foo::default(),'' q \<longrightarrow> q = 0"
    by (simp_all add: occurrences_single)
  from exactness_unique_anchor [OF h, of "''a: Bar::new(),''"] show ?thesis by simp
qed

subsection \<open>Length and frame of a successful patch\<close>

lemma occurs_at_decomp:
  "occurs_at s sub p \<longleftrightarrow> (\<exists>xs zs. s = xs @ sub @ zs \<and> length xs = p)"
proof
  assume "occurs_at s sub p"
  then obtain zs where "s = take p s @ sub @ zs" "p \<le> length s"
    by (auto simp: occurs_at_split)
  then have "s = take p s @ sub @ zs \<and> length (take p s) = p" by simp
  then show "\<exists>xs zs. s = xs @ sub @ zs \<and> length xs = p" by blast
next
  assume "\<exists>xs zs. s = xs @ sub @ zs \<and> length xs = p"
  then show "occurs_at s sub p" by (auto simp: occurs_at_def)
qed

lemma occurs_at_append_left: "occurs_at xs sub q \<Longrightarrow> occurs_at (xs @ ys) sub q"
  unfolding occurs_at_decomp by (metis append.assoc)

lemma occurs_at_append_right: "occurs_at ys sub q \<Longrightarrow> occurs_at (xs @ ys) sub (length xs + q)"
  unfolding occurs_at_decomp by (metis append.assoc length_append)

lemma occurs_at_take:
  assumes "occurs_at s sub q" and "q + length sub \<le> p"
  shows "occurs_at (take p s) sub q"
proof -
  from assms(1) obtain xs zs where s: "s = xs @ sub @ zs" and l: "length xs = q"
    by (auto simp: occurs_at_decomp)
  from assms(2) l have "take p s = xs @ sub @ take (p - q - length sub) zs"
    by (simp add: s)
  with l show ?thesis unfolding occurs_at_decomp by blast
qed

lemma occurs_at_drop_shift:
  assumes "occurs_at s sub q" and "m \<le> q"
  shows "occurs_at (drop m s) sub (q - m)"
proof -
  from assms(1) have "q \<le> length s" by (simp add: occurs_at_def)
  with assms show ?thesis
    using occurs_at_drop [of m s sub "q - m"] by simp
qed

lemma apply_patch_Applied:
  assumes "apply_patch D scope A n R = Applied D'"
  shows "\<exists>p. locate_nth D A n (case scope of None \<Rightarrow> 0 | Some S \<Rightarrow> py_find D S 0) = int p
             \<and> occurs_at D A p \<and> D' = take p D @ R @ drop (p + length A) D"
proof (cases scope)
  case None
  with assms have "apply_from D 0 A n R = Applied D'" by (simp add: apply_patch_def)
  from apply_from_Applied [OF this] None show ?thesis by simp
next
  case (Some S)
  with assms have "apply_from D (py_find D S 0) A n R = Applied D'"
    by (simp add: apply_patch_def Let_def split: if_splits)
  from apply_from_Applied [OF this] Some show ?thesis by simp
qed

lemma script_write_is_apply:
  assumes "apply_patch D scope A n R = Applied D'
         \<or> wrote (patch_api_bind S A R D) = Some D'
         \<or> wrote (patch_nvidia S A R D) = Some D'"
  shows "\<exists>sc m. apply_patch D sc A m R = Applied D'"
  using assms unfolding patch_api_bind_apply patch_nvidia_apply persisted_Some by blast

text \<open>
  Claim C2. Whenever a patch succeeds (first occurrence, \<open>n\<close>-th occurrence, scoped or not;
  as the operation \<^verbatim>\<open>apply\<close> or as a write of either script), the new content has length
  \<^verbatim>\<open>len(D) - len(A) + len(R)\<close>, and it equals the original outside the spliced span: there is
  a position \<open>p\<close> where the anchor stood such that the text before \<open>p\<close> is unchanged, the text
  after the replacement is the original text after the anchor, and the span between holds
  the replacement.
\<close>

theorem applied_length_and_frame:
  assumes "apply_patch D scope A n R = Applied D'
         \<or> wrote (patch_api_bind S A R D) = Some D'
         \<or> wrote (patch_nvidia S A R D) = Some D'"
  shows "\<exists>p. occurs_at D A p
           \<and> int (length D') = int (length D) - int (length A) + int (length R)
           \<and> take p D' = take p D
           \<and> drop (p + length R) D' = drop (p + length A) D
           \<and> occurs_at D' R p"
proof -
  from script_write_is_apply [OF assms] obtain sc m where
    "apply_patch D sc A m R = Applied D'" by blast
  from apply_patch_Applied [OF this] obtain p where
    p: "occurs_at D A p" "D' = take p D @ R @ drop (p + length A) D" by blast
  from splice_frame [OF p] p(1) show ?thesis by blast
qed

text \<open>A run of the second-occurrence script after a scope anchor.\<close>

theorem applied_length_and_frame_witness:
  "wrote (patch_nvidia ''fn'' ''ab'' ''XYZ'' ''ab fn ab ab ab'') = Some ''ab fn ab XYZ ab''
   \<and> (\<exists>p. occurs_at ''ab fn ab ab ab'' ''ab'' p
         \<and> int (length ''ab fn ab XYZ ab'')
             = int (length ''ab fn ab ab ab'') - int (length ''ab'') + int (length ''XYZ'')
         \<and> take p ''ab fn ab XYZ ab'' = take p ''ab fn ab ab ab''
         \<and> drop (p + length ''XYZ'') ''ab fn ab XYZ ab'' = drop (p + length ''ab'') ''ab fn ab ab ab''
         \<and> occurs_at ''ab fn ab XYZ ab'' ''XYZ'' p)"
proof -
  have h: "wrote (patch_nvidia ''fn'' ''ab'' ''XYZ'' ''ab fn ab ab ab'') = Some ''ab fn ab XYZ ab''"
    by (simp add: patch_nvidia_def nvidia_splice_def py_find_def slice_to_def slice_from_def)
  from applied_length_and_frame [OF disjI2, OF disjI2, OF h] h show ?thesis by blast
qed

subsection \<open>Scope enforcement\<close>

text \<open>
  Claim C4. When the scope anchor is found at index \<open>sp\<close>, the search for the target anchor
  starts at \<open>sp\<close> itself. If the target anchor occurs both before \<open>sp\<close> (at \<open>q\<close>) and at or
  after it (at \<open>r\<close>), then \<^verbatim>\<open>apply(D, scope, A, 1, R)\<close>, and \<^verbatim>\<open>patch_api_bind.py\<close> with it,
  replaces the first occurrence at or after \<open>sp\<close> and no earlier one: everything before
  \<open>sp\<close> is unchanged, and an occurrence that ends before \<open>sp\<close> is still there.
\<close>

theorem scope_enforcement:
  assumes scope: "py_find D S 0 = int sp"
    and before: "occurs_at D A q" "q < sp"
    and after: "occurs_at D A r" "sp \<le> r"
  shows "\<exists>p D'. sp \<le> p \<and> p \<le> r \<and> occurs_at D A p
           \<and> (\<forall>j. sp \<le> j \<and> j < p \<longrightarrow> \<not> occurs_at D A j)
           \<and> D' = take p D @ R @ drop (p + length A) D
           \<and> apply_patch D (Some S) A 1 R = Applied D'
           \<and> wrote (patch_api_bind S A R D) = Some D'
           \<and> take sp D' = take sp D
           \<and> (q + length A \<le> sp \<longrightarrow> occurs_at D' A q)"
proof -
  from py_find_present [OF after] obtain p where
    p: "py_find D A (int sp) = int p" "p \<le> r" by blast
  from py_find_found [OF p(1)] have
    f: "sp \<le> p" "occurs_at D A p" "\<forall>j. sp \<le> j \<and> j < p \<longrightarrow> \<not> occurs_at D A j"
    by auto
  define D' where "D' = take p D @ R @ drop (p + length A) D"
  from scope p(1) have a: "apply_patch D (Some S) A 1 R = Applied D'"
    by (simp add: apply_patch_def apply_from_def D'_def)
  then have w: "wrote (patch_api_bind S A R D) = Some D'"
    by (simp add: patch_api_bind_apply)
  from f(2) have "p \<le> length D" by (simp add: occurs_at_def)
  with f(1) have t: "take sp D' = take sp D"
    by (simp add: D'_def min_absorb2)
  have o: "occurs_at D' A q" if "q + length A \<le> sp"
  proof -
    from that f(1) have "q + length A \<le> p" by simp
    from occurs_at_take [OF before(1) this] show ?thesis
      unfolding D'_def by (rule occurs_at_append_left)
  qed
  from f p(2) a w t o D'_def show ?thesis by blast
qed

text \<open>The anchor before the scope anchor stays; the first one after it is replaced.\<close>

theorem scope_enforcement_witness:
  "\<exists>p D'. 3 \<le> p \<and> p \<le> 6 \<and> occurs_at ''ab fn ab ab'' ''ab'' p
     \<and> (\<forall>j. 3 \<le> j \<and> j < p \<longrightarrow> \<not> occurs_at ''ab fn ab ab'' ''ab'' j)
     \<and> D' = take p ''ab fn ab ab'' @ ''XYZ'' @ drop (p + length ''ab'') ''ab fn ab ab''
     \<and> apply_patch ''ab fn ab ab'' (Some ''fn'') ''ab'' 1 ''XYZ'' = Applied D'
     \<and> wrote (patch_api_bind ''fn'' ''ab'' ''XYZ'' ''ab fn ab ab'') = Some D'
     \<and> take 3 D' = take 3 ''ab fn ab ab''
     \<and> (0 + length ''ab'' \<le> 3 \<longrightarrow> occurs_at D' ''ab'' 0)"
proof -
  have s: "py_find ''ab fn ab ab'' ''fn'' 0 = int 3" by (simp add: py_find_def)
  have b: "occurs_at ''ab fn ab ab'' ''ab'' 0" "(0::nat) < 3" by (simp_all add: occurs_at_def)
  have a: "occurs_at ''ab fn ab ab'' ''ab'' 6" "(3::nat) \<le> 6" by (simp_all add: occurs_at_def)
  from scope_enforcement [OF s b a, of "''XYZ''"] show ?thesis .
qed

subsection \<open>Absence\<close>

lemma apply_from_absent: "\<not> sublist A D \<Longrightarrow> apply_from D start A n R = NotFound"
  by (simp add: apply_from_def locate_nth_absent)

text \<open>
  Claim C5. For every document \<open>D\<close>, anchor \<open>A\<close> that is not a substring of \<open>D\<close>, and
  replacement \<open>R\<close>: \<^verbatim>\<open>locate(D, A, 0)\<close> is \<^verbatim>\<open>-1\<close> (not found), \<^verbatim>\<open>apply(D, None, A, 1, R)\<close> is
  \<open>NotFound\<close>, and nothing is produced or persisted: the result carries no content, and
  neither script (nor its find-and-splice from any start offset) writes the file.
\<close>

theorem absence:
  assumes "\<not> sublist A D"
  shows "py_find D A 0 = - 1
       \<and> apply_patch D None A 1 R = NotFound
       \<and> persisted (apply_patch D None A 1 R) = None
       \<and> wrote (api_bind_splice D start A R) = None
       \<and> wrote (nvidia_splice D start A R) = None
       \<and> wrote (patch_api_bind S A R D) = None
       \<and> wrote (patch_nvidia S A R D) = None"
proof -
  have f: "py_find D A 0 = - 1" using assms by (rule py_find_unscoped_absent)
  have a: "apply_patch D sc A n R = NotFound" for sc n
    using assms by (cases sc) (simp_all add: apply_patch_def Let_def apply_from_absent)
  have s1: "wrote (api_bind_splice D start A R) = None"
    using assms by (simp add: api_bind_splice_apply apply_from_absent)
  have s2: "wrote (nvidia_splice D start A R) = None"
    using assms by (simp add: nvidia_splice_apply apply_from_absent)
  have w1: "wrote (patch_api_bind S A R D) = None"
    by (simp add: patch_api_bind_apply a)
  have w2: "wrote (patch_nvidia S A R D) = None"
    by (simp add: patch_nvidia_apply a)
  from f a s1 s2 w1 w2 show ?thesis by simp
qed

text \<open>A document without the anchor.\<close>

theorem absence_witness:
  "py_find ''fn main'' ''api'' 0 = - 1
   \<and> apply_patch ''fn main'' None ''api'' 1 ''X'' = NotFound
   \<and> persisted (apply_patch ''fn main'' None ''api'' 1 ''X'') = None
   \<and> wrote (api_bind_splice ''fn main'' 0 ''api'' ''X'') = None
   \<and> wrote (nvidia_splice ''fn main'' 0 ''api'' ''X'') = None
   \<and> wrote (patch_api_bind ''fn'' ''api'' ''X'' ''fn main'') = None
   \<and> wrote (patch_nvidia ''fn'' ''api'' ''X'' ''fn main'') = None"
proof -
  have h: "\<not> sublist ''api'' ''fn main''" by code_simp
  from absence [OF h] show ?thesis .
qed

subsection \<open>A missing scope anchor\<close>

text \<open>
  Claim C8. When a scope anchor is supplied and does not occur in the document, the whole
  operation is \<open>NotFound\<close> whatever the target anchor, the occurrence count and the
  replacement are: no target search or splice takes place. Both scripts exit with status 1
  at that point and write nothing.
\<close>

theorem scope_absent_fails:
  assumes "\<not> sublist S D"
  shows "apply_patch D (Some S) A n R = NotFound
       \<and> patch_api_bind S A R D = \<lparr>wrote = None, printed = [], status = 1\<rparr>
       \<and> patch_nvidia S A R D
           = \<lparr>wrote = None, printed = [''Could not find load_from_env''], status = 1\<rparr>"
proof -
  have "py_find D S 0 = - 1" using assms by (rule py_find_unscoped_absent)
  then show ?thesis
    by (simp add: apply_patch_def patch_api_bind_def patch_nvidia_def)
qed

text \<open>The target anchor is there twice, the scope anchor is not.\<close>

theorem scope_absent_fails_witness:
  "apply_patch ''api api'' (Some ''fn'') ''api'' 1 ''X'' = NotFound
   \<and> patch_api_bind ''fn'' ''api'' ''X'' ''api api'' = \<lparr>wrote = None, printed = [], status = 1\<rparr>
   \<and> patch_nvidia ''fn'' ''api'' ''X'' ''api api''
       = \<lparr>wrote = None, printed = [''Could not find load_from_env''], status = 1\<rparr>"
proof -
  have h: "\<not> sublist ''fn'' ''api api''" by code_simp
  from scope_absent_fails [OF h] show ?thesis .
qed

subsection \<open>One splice, no rescan\<close>

lemma splice_keeps_others:
  assumes p: "occurs_at D A p" and D': "D' = take p D @ R @ drop (p + length A) D"
  shows "occurs_at R A k \<Longrightarrow> occurs_at D' A (p + k)"
    and "occurs_at D A q \<Longrightarrow> q + length A \<le> p \<Longrightarrow> occurs_at D' A q"
    and "occurs_at D A q \<Longrightarrow> p + length A \<le> q \<Longrightarrow> occurs_at D' A (q - length A + length R)"
proof -
  from p have b: "p + length A \<le> length D" by (rule occurs_at_bound)
  then have lp: "length (take p D) = p" by simp
  show "occurs_at D' A (p + k)" if "occurs_at R A k"
  proof -
    from that have "occurs_at (R @ drop (p + length A) D) A k" by (rule occurs_at_append_left)
    from occurs_at_append_right [OF this, of "take p D"] lp show ?thesis by (simp add: D')
  qed
  show "occurs_at D' A q" if "occurs_at D A q" "q + length A \<le> p"
    unfolding D' using occurs_at_take [OF that] by (rule occurs_at_append_left)
  show "occurs_at D' A (q - length A + length R)" if "occurs_at D A q" "p + length A \<le> q"
  proof -
    from occurs_at_drop_shift [OF that]
    have "occurs_at (drop (p + length A) D) A (q - (p + length A))" .
    from occurs_at_append_right [OF this, of "take p D @ R"] lp that(2)
    have "occurs_at ((take p D @ R) @ drop (p + length A) D) A (p + length R + (q - (p + length A)))"
      by simp
    moreover from that(2) have "p + length R + (q - (p + length A)) = q - length A + length R"
      by arith
    ultimately show ?thesis by (simp add: D')
  qed
qed

text \<open>
  Claim C10 says that a successful patch is one splice that does not search the text it
  puts in, so that the result may still hold the anchor, and that at most one occurrence
  of the anchor is removed per invocation. The last part fails where occurrences overlap
  the replaced one: in \<^verbatim>\<open>"abababa"\<close> the anchor \<^verbatim>\<open>"aba"\<close> occurs at 0, 2 and 4; with the
  scope anchor \<^verbatim>\<open>"ba"\<close> the occurrence at 2 is replaced by \<^verbatim>\<open>"x"\<close>, and the result
  \<^verbatim>\<open>"abxba"\<close> holds no occurrence at all. Counted without overlap from offset 0, two
  occurrences are found before the patch and none after it.
\<close>

theorem one_occurrence_removed_counterexample:
  "occurrences ''abababa'' ''aba'' = [0, 2, 4]
   \<and> wrote (patch_api_bind ''ba'' ''aba'' ''x'' ''abababa'') = Some ''abxba''
   \<and> apply_patch ''abababa'' (Some ''ba'') ''aba'' 1 ''x'' = Applied ''abxba''
   \<and> occurrences ''abxba'' ''aba'' = []
   \<and> locate_nth ''abababa'' ''aba'' 2 0 = 4
   \<and> locate_nth ''abxba'' ''aba'' 1 0 = - 1"
proof -
  have a: "occurrences ''abababa'' ''aba'' = [0, 2, 4]" by code_simp
  have b: "wrote (patch_api_bind ''ba'' ''aba'' ''x'' ''abababa'') = Some ''abxba''"
    by (simp add: patch_api_bind_def api_bind_splice_def py_find_def slice_to_def slice_from_def)
  have c: "apply_patch ''abababa'' (Some ''ba'') ''aba'' 1 ''x'' = Applied ''abxba''"
    by (simp add: apply_patch_def apply_from_def py_find_def slice_to_def slice_from_def)
  have d: "occurrences ''abxba'' ''aba'' = []" by code_simp
  have e: "locate_nth ''abababa'' ''aba'' 2 0 = 4" by (simp add: py_find_def numeral_2_eq_2)
  have f: "locate_nth ''abxba'' ''aba'' 1 0 = - 1" by (simp add: py_find_def)
  from a b c d e f show ?thesis by blast
qed

text \<open>
  Claim C10, as the code has it. A successful patch is exactly one splice at an occurrence
  \<open>p\<close> of the anchor. The replacement is put in as it is and is not searched: where the
  anchor occurs inside the replacement it occurs in the result, so the result may still
  contain the anchor. Every occurrence of the anchor that lies wholly before or wholly
  after the replaced span is still there (shifted by the change of length when it lies
  after); so when no other occurrence overlaps the replaced one, every other occurrence is
  kept. Occurrences that overlap the replaced span may go with it.
\<close>

theorem single_splice_no_rescan:
  assumes "apply_patch D scope A n R = Applied D'
         \<or> wrote (patch_api_bind S A R D) = Some D'
         \<or> wrote (patch_nvidia S A R D) = Some D'"
  shows "\<exists>p. occurs_at D A p \<and> D' = take p D @ R @ drop (p + length A) D
           \<and> (\<forall>k. occurs_at R A k \<longrightarrow> occurs_at D' A (p + k))
           \<and> (sublist A R \<longrightarrow> sublist A D')
           \<and> (\<forall>q. occurs_at D A q \<and> q + length A \<le> p \<longrightarrow> occurs_at D' A q)
           \<and> (\<forall>q. occurs_at D A q \<and> p + length A \<le> q
                  \<longrightarrow> occurs_at D' A (q - length A + length R))
           \<and> ((\<forall>q. occurs_at D A q \<and> q \<noteq> p \<longrightarrow> q + length A \<le> p \<or> p + length A \<le> q)
                \<longrightarrow> (\<forall>q. occurs_at D A q \<and> q < p \<longrightarrow> occurs_at D' A q)
                  \<and> (\<forall>q. occurs_at D A q \<and> p < q
                         \<longrightarrow> occurs_at D' A (q - length A + length R)))"
proof -
  from script_write_is_apply [OF assms] obtain sc m where
    "apply_patch D sc A m R = Applied D'" by blast
  from apply_patch_Applied [OF this] obtain p where
    p: "occurs_at D A p" "D' = take p D @ R @ drop (p + length A) D" by blast
  note k = splice_keeps_others [OF p]
  have s: "sublist A D'" if "sublist A R"
    using that k(1) unfolding sublist_iff_occurs by blast
  have before: "occurs_at D' A q"
    if "\<forall>q. occurs_at D A q \<and> q \<noteq> p \<longrightarrow> q + length A \<le> p \<or> p + length A \<le> q"
      and "occurs_at D A q" and "q < p" for q
  proof -
    from that have "q + length A \<le> p \<or> p + length A \<le> q" by blast
    with \<open>q < p\<close> have "q + length A \<le> p" by arith
    with that(2) show ?thesis by (rule k(2))
  qed
  have after: "occurs_at D' A (q - length A + length R)"
    if "\<forall>q. occurs_at D A q \<and> q \<noteq> p \<longrightarrow> q + length A \<le> p \<or> p + length A \<le> q"
      and "occurs_at D A q" and "p < q" for q
  proof -
    from that have "q + length A \<le> p \<or> p + length A \<le> q" by blast
    with \<open>p < q\<close> have "p + length A \<le> q" by arith
    with that(2) show ?thesis by (rule k(3))
  qed
  show ?thesis
  proof (intro exI conjI)
    show "occurs_at D A p" by (rule p(1))
    show "D' = take p D @ R @ drop (p + length A) D" by (rule p(2))
    show "\<forall>k. occurs_at R A k \<longrightarrow> occurs_at D' A (p + k)" using k(1) by blast
    show "sublist A R \<longrightarrow> sublist A D'" using s by blast
    show "\<forall>q. occurs_at D A q \<and> q + length A \<le> p \<longrightarrow> occurs_at D' A q"
      using k(2) by blast
    show "\<forall>q. occurs_at D A q \<and> p + length A \<le> q
        \<longrightarrow> occurs_at D' A (q - length A + length R)"
      using k(3) by blast
    show "(\<forall>q. occurs_at D A q \<and> q \<noteq> p \<longrightarrow> q + length A \<le> p \<or> p + length A \<le> q)
        \<longrightarrow> (\<forall>q. occurs_at D A q \<and> q < p \<longrightarrow> occurs_at D' A q)
          \<and> (\<forall>q. occurs_at D A q \<and> p < q
                 \<longrightarrow> occurs_at D' A (q - length A + length R))"
      using before after by blast
  qed
qed

text \<open>A replacement that contains the anchor: the result holds the anchor twice.\<close>

theorem single_splice_no_rescan_witness:
  "wrote (patch_api_bind ''fn'' ''ab'' ''-ab-'' ''fn ab ab'') = Some ''fn -ab- ab''
   \<and> sublist ''ab'' ''-ab-''
   \<and> sublist ''ab'' ''fn -ab- ab''
   \<and> (\<exists>p. occurs_at ''fn ab ab'' ''ab'' p
         \<and> ''fn -ab- ab'' = take p ''fn ab ab'' @ ''-ab-'' @ drop (p + length ''ab'') ''fn ab ab''
         \<and> (\<forall>k. occurs_at ''-ab-'' ''ab'' k \<longrightarrow> occurs_at ''fn -ab- ab'' ''ab'' (p + k))
         \<and> (sublist ''ab'' ''-ab-'' \<longrightarrow> sublist ''ab'' ''fn -ab- ab'')
         \<and> (\<forall>q. occurs_at ''fn ab ab'' ''ab'' q \<and> q + length ''ab'' \<le> p
                \<longrightarrow> occurs_at ''fn -ab- ab'' ''ab'' q)
         \<and> (\<forall>q. occurs_at ''fn ab ab'' ''ab'' q \<and> p + length ''ab'' \<le> q
                \<longrightarrow> occurs_at ''fn -ab- ab'' ''ab'' (q - length ''ab'' + length ''-ab-''))
         \<and> ((\<forall>q. occurs_at ''fn ab ab'' ''ab'' q \<and> q \<noteq> p
                 \<longrightarrow> q + length ''ab'' \<le> p \<or> p + length ''ab'' \<le> q)
              \<longrightarrow> (\<forall>q. occurs_at ''fn ab ab'' ''ab'' q \<and> q < p
                       \<longrightarrow> occurs_at ''fn -ab- ab'' ''ab'' q)
                \<and> (\<forall>q. occurs_at ''fn ab ab'' ''ab'' q \<and> p < q
                       \<longrightarrow> occurs_at ''fn -ab- ab'' ''ab''
                             (q - length ''ab'' + length ''-ab-''))))"
proof -
  have h: "wrote (patch_api_bind ''fn'' ''ab'' ''-ab-'' ''fn ab ab'') = Some ''fn -ab- ab''"
    by (simp add: patch_api_bind_def api_bind_splice_def py_find_def slice_to_def slice_from_def)
  have s: "sublist ''ab'' ''-ab-''" by code_simp
  note t = single_splice_no_rescan [OF disjI2, OF disjI1, OF h]
  from t obtain p where "sublist ''ab'' ''-ab-'' \<longrightarrow> sublist ''ab'' ''fn -ab- ab''"
    by (elim exE conjE)
  with s have r: "sublist ''ab'' ''fn -ab- ab''" by (rule rev_mp)
  from h s r t show ?thesis by (intro conjI)
qed

subsection \<open>The n-th occurrence\<close>

lemma py_find_eq_iff:
  "py_find D A (int st) = int p \<longleftrightarrow>
     st \<le> p \<and> occurs_at D A p \<and> (\<forall>j. st \<le> j \<and> j < p \<longrightarrow> \<not> occurs_at D A j)"
proof
  assume "py_find D A (int st) = int p"
  then show "st \<le> p \<and> occurs_at D A p \<and> (\<forall>j. st \<le> j \<and> j < p \<longrightarrow> \<not> occurs_at D A j)"
    by (rule py_find_found)
next
  assume a: "st \<le> p \<and> occurs_at D A p \<and> (\<forall>j. st \<le> j \<and> j < p \<longrightarrow> \<not> occurs_at D A j)"
  show "py_find D A (int st) = int p"
  proof (rule py_find_least)
    show "occurs_at D A p" using a by blast
    show "st \<le> p" using a by blast
    show "\<not> occurs_at D A q" if "st \<le> q" "q < p" for q using a that by blast
  qed
qed

lemma py_find_none_iff:
  "py_find D A (int st) = - 1 \<longleftrightarrow> (\<forall>j. st \<le> j \<longrightarrow> \<not> occurs_at D A j)"
proof
  assume "py_find D A (int st) = - 1"
  then show "\<forall>j. st \<le> j \<longrightarrow> \<not> occurs_at D A j"
    using py_find_absent by blast
next
  assume a: "\<forall>j. st \<le> j \<longrightarrow> \<not> occurs_at D A j"
  from py_find_range [of D A "int st"] show "py_find D A (int st) = - 1"
  proof
    assume "\<exists>p. py_find D A (int st) = int p"
    then obtain p where "py_find D A (int st) = int p" ..
    from py_find_found [OF this] a show ?thesis by blast
  qed
qed

lemma locate_nth_next_iff:
  "locate_nth D A (Suc (Suc n)) start = int p \<longleftrightarrow>
     (\<exists>q. locate_nth D A (Suc n) start = int q \<and> q + length A \<le> p \<and> occurs_at D A p
          \<and> (\<forall>j. q + length A \<le> j \<and> j < p \<longrightarrow> \<not> occurs_at D A j))"
proof (cases "locate_nth D A (Suc n) start = - 1")
  case True
  then have "locate_nth D A (Suc (Suc n)) start = - 1"
    by (simp only: locate_nth_step Let_def) simp
  with True show ?thesis by simp
next
  case False
  with locate_nth_range [of D A "Suc n" start] obtain q where
    q: "locate_nth D A (Suc n) start = int q" by blast
  then have "locate_nth D A (Suc (Suc n)) start = py_find D A (int (q + length A))"
    by (simp only: locate_nth_step Let_def) simp
  then show ?thesis
    using q py_find_eq_iff [of D A "q + length A" p] by (simp del: of_nat_add locate_nth.simps)
qed

lemma locate_nth_next_none_iff:
  "locate_nth D A (Suc (Suc n)) start = - 1 \<longleftrightarrow>
     locate_nth D A (Suc n) start = - 1
     \<or> (\<exists>q. locate_nth D A (Suc n) start = int q
            \<and> (\<forall>j. q + length A \<le> j \<longrightarrow> \<not> occurs_at D A j))"
proof (cases "locate_nth D A (Suc n) start = - 1")
  case True
  then have "locate_nth D A (Suc (Suc n)) start = - 1"
    by (simp only: locate_nth_step Let_def) simp
  with True show ?thesis by simp
next
  case False
  with locate_nth_range [of D A "Suc n" start] obtain q where
    q: "locate_nth D A (Suc n) start = int q" by blast
  then have "locate_nth D A (Suc (Suc n)) start = py_find D A (int (q + length A))"
    by (simp only: locate_nth_step Let_def) simp
  then show ?thesis
    using q py_find_none_iff [of D A "q + length A"] by (simp del: of_nat_add locate_nth.simps)
qed

lemma nvidia_splice_second:
  "wrote (nvidia_splice D start A R) =
     (if locate_nth D A 2 start = - 1 then None
      else Some (slice_to D (locate_nth D A 2 start) @ R
                   @ slice_from D (locate_nth D A 2 start + int (length A))))"
  by (simp add: nvidia_splice_def Let_def numeral_2_eq_2)

text \<open>
  Claim C3. \<^verbatim>\<open>locate_nth(document, anchor, n, start_offset)\<close> is the position of the \<open>n\<close>-th
  occurrence (1-indexed) of the anchor at or after the start offset, counting left to right
  and without overlap. The first occurrence is the least occurrence at or after the start
  offset; the next one is the least occurrence at or after the end of the previous match
  (its start plus the length of the anchor, not its start plus one), and it is not found
  when the previous one is not found or no occurrence is left from there on. For \<^verbatim>\<open>"xx"\<close>
  and \<^verbatim>\<open>"x"\<close> the first occurrence is at 0, the second at 1, and there is no third; in
  \<^verbatim>\<open>"aaa"\<close> there is no second \<^verbatim>\<open>"aa"\<close>, since the overlapping one at 1 does not count.
  The second match of \<^verbatim>\<open>patch_nvidia.py\<close> (lines 25 to 28) is \<^verbatim>\<open>locate_nth\<close> at \<open>n = 2\<close>.
\<close>

theorem locate_nth_non_overlapping:
  "locate_nth ''xx'' ''x'' 1 0 = 0
   \<and> locate_nth ''xx'' ''x'' 2 0 = 1
   \<and> locate_nth ''xx'' ''x'' 3 0 = - 1
   \<and> locate_nth ''aaa'' ''aa'' 2 0 = - 1
   \<and> (locate_nth D A 1 (int st) = int p \<longleftrightarrow>
        st \<le> p \<and> occurs_at D A p \<and> (\<forall>j. st \<le> j \<and> j < p \<longrightarrow> \<not> occurs_at D A j))
   \<and> (locate_nth D A 1 (int st) = - 1 \<longleftrightarrow> (\<forall>j. st \<le> j \<longrightarrow> \<not> occurs_at D A j))
   \<and> (locate_nth D A (Suc (Suc n)) (int st) = int p \<longleftrightarrow>
        (\<exists>q. locate_nth D A (Suc n) (int st) = int q \<and> q + length A \<le> p \<and> occurs_at D A p
             \<and> (\<forall>j. q + length A \<le> j \<and> j < p \<longrightarrow> \<not> occurs_at D A j)))
   \<and> (locate_nth D A (Suc (Suc n)) (int st) = - 1 \<longleftrightarrow>
        locate_nth D A (Suc n) (int st) = - 1
        \<or> (\<exists>q. locate_nth D A (Suc n) (int st) = int q
               \<and> (\<forall>j. q + length A \<le> j \<longrightarrow> \<not> occurs_at D A j)))
   \<and> wrote (nvidia_splice D start A R) =
        (if locate_nth D A 2 start = - 1 then None
         else Some (slice_to D (locate_nth D A 2 start) @ R
                      @ slice_from D (locate_nth D A 2 start + int (length A))))"
proof -
  have e1: "locate_nth ''xx'' ''x'' 1 0 = 0" by (simp add: py_find_def)
  have e2: "locate_nth ''xx'' ''x'' 2 0 = 1" by (simp add: py_find_def numeral_2_eq_2)
  have e3: "locate_nth ''xx'' ''x'' 3 0 = - 1" by (simp add: py_find_def numeral_3_eq_3)
  have e4: "locate_nth ''aaa'' ''aa'' 2 0 = - 1" by (simp add: py_find_def numeral_2_eq_2)
  have f1: "locate_nth D A 1 (int st) = int p \<longleftrightarrow>
        st \<le> p \<and> occurs_at D A p \<and> (\<forall>j. st \<le> j \<and> j < p \<longrightarrow> \<not> occurs_at D A j)"
    by (simp add: py_find_eq_iff)
  have f2: "locate_nth D A 1 (int st) = - 1 \<longleftrightarrow> (\<forall>j. st \<le> j \<longrightarrow> \<not> occurs_at D A j)"
    by (simp add: py_find_none_iff)
  note f3 = locate_nth_next_iff [of D A n "int st" p]
  note f4 = locate_nth_next_none_iff [of D A n "int st"]
  note f5 = nvidia_splice_second [of D start A R]
  from e1 e2 e3 e4 f1 f2 f3 f4 f5 show ?thesis by blast
qed

text \<open>The second \<^verbatim>\<open>"bc"\<close> from offset 2 of \<^verbatim>\<open>"abcabcabc"\<close> is the one at 7.\<close>

theorem locate_nth_non_overlapping_witness:
  "locate_nth ''abcabcabc'' ''bc'' (Suc (Suc 0)) (int 2) = int 7
   \<and> (\<exists>q. locate_nth ''abcabcabc'' ''bc'' (Suc 0) (int 2) = int q
          \<and> q + length ''bc'' \<le> 7 \<and> occurs_at ''abcabcabc'' ''bc'' 7
          \<and> (\<forall>j. q + length ''bc'' \<le> j \<and> j < 7 \<longrightarrow> \<not> occurs_at ''abcabcabc'' ''bc'' j))"
proof -
  have b: "locate_nth ''abcabcabc'' ''bc'' (Suc (Suc 0)) (int 2) = int 7"
    by (simp add: py_find_def)
  from locate_nth_non_overlapping [of "''abcabcabc''" "''bc''" 2 7 0 0 "[]"]
  have "locate_nth ''abcabcabc'' ''bc'' (Suc (Suc 0)) (int 2) = int 7 \<longleftrightarrow>
     (\<exists>q. locate_nth ''abcabcabc'' ''bc'' (Suc 0) (int 2) = int q
          \<and> q + length ''bc'' \<le> 7 \<and> occurs_at ''abcabcabc'' ''bc'' 7
          \<and> (\<forall>j. q + length ''bc'' \<le> j \<and> j < 7 \<longrightarrow> \<not> occurs_at ''abcabcabc'' ''bc'' j))"
    by (elim conjE)
  with b show ?thesis by blast
qed

subsection \<open>The empty anchor\<close>

text \<open>
  Claim C9 says that an empty anchor is rejected with a distinct error before any search,
  and that no call with an empty anchor matches and splices. The scripts have no such
  check and no such outcome: \<^verbatim>\<open>str.find\<close> finds the empty string at the start offset, and
  the splice puts the replacement in there. In \<^verbatim>\<open>"abc"\<close> the empty anchor is located at 0,
  also as second occurrence, the unscoped patch gives \<^verbatim>\<open>"Xabc"\<close>, and with the scope anchor
  \<^verbatim>\<open>"b"\<close> both scripts write \<^verbatim>\<open>"aXbc"\<close>.
\<close>

theorem empty_anchor_counterexample:
  "py_find ''abc'' [] 0 = 0
   \<and> locate_nth ''abc'' [] 2 0 = 0
   \<and> apply_patch ''abc'' None [] 1 ''X'' = Applied ''Xabc''
   \<and> wrote (patch_api_bind ''b'' [] ''X'' ''abc'') = Some ''aXbc''
   \<and> wrote (patch_nvidia ''b'' [] ''X'' ''abc'') = Some ''aXbc''"
  by (simp add: py_find_def apply_patch_def apply_from_def patch_api_bind_def
      api_bind_splice_def patch_nvidia_def nvidia_splice_def slice_to_def slice_from_def
      numeral_2_eq_2)

lemma py_find_empty: "st \<le> length D \<Longrightarrow> py_find D [] (int st) = int st"
  by (rule py_find_least) (simp_all add: occurs_at_def)

lemma locate_nth_empty: "st \<le> length D \<Longrightarrow> locate_nth D [] (Suc n) (int st) = int st"
proof (induction n)
  case 0
  then show ?case by (simp add: py_find_empty)
next
  case (Suc n)
  then show ?case by (simp only: locate_nth_step Let_def) (simp add: py_find_empty)
qed

text \<open>
  Claim C9, as the code has it. An empty anchor is not rejected. It is located at the start
  offset itself (for a start offset within the document), for every occurrence count from 1
  on, and the patch succeeds: the replacement is inserted at the start offset and nothing is
  removed. Without a scope anchor the result is the replacement followed by the document;
  with a scope anchor found at \<open>sp\<close>, both scripts write the document with the replacement
  inserted at \<open>sp\<close>.
\<close>

theorem empty_anchor_matches_at_start:
  "(st \<le> length D \<longrightarrow>
      py_find D [] (int st) = int st
      \<and> locate_nth D [] (Suc n) (int st) = int st
      \<and> apply_from D (int st) [] (Suc n) R = Applied (take st D @ R @ drop st D))
   \<and> apply_patch D None [] (Suc n) R = Applied (R @ D)
   \<and> (py_find D S 0 = int sp \<longrightarrow>
        apply_patch D (Some S) [] (Suc n) R = Applied (take sp D @ R @ drop sp D)
        \<and> wrote (patch_api_bind S [] R D) = Some (take sp D @ R @ drop sp D)
        \<and> wrote (patch_nvidia S [] R D) = Some (take sp D @ R @ drop sp D))"
proof -
  have a: "apply_from D (int st) [] (Suc n) R = Applied (take st D @ R @ drop st D)"
    if "st \<le> length D" for st n
    using locate_nth_empty [OF that, of n] by (simp add: apply_from_def del: locate_nth.simps)
  have b: "apply_patch D None [] (Suc n) R = Applied (R @ D)"
    using a [of 0 n] by (simp add: apply_patch_def)
  have c: "apply_patch D (Some S) [] (Suc n) R = Applied (take sp D @ R @ drop sp D)"
    if "py_find D S 0 = int sp" for n
  proof -
    from that have "py_find D S (int 0) = int sp" by simp
    from py_find_found [OF this] have "sp \<le> length D" by (simp add: occurs_at_def)
    from a [OF this, of n] that show ?thesis by (simp add: apply_patch_def)
  qed
  have d: "wrote (patch_api_bind S [] R D) = Some (take sp D @ R @ drop sp D)"
    if "py_find D S 0 = int sp"
    using c [OF that, of 0] by (simp add: patch_api_bind_apply)
  have e: "wrote (patch_nvidia S [] R D) = Some (take sp D @ R @ drop sp D)"
    if "py_find D S 0 = int sp"
    using c [OF that, of "Suc 0"] by (simp add: patch_nvidia_apply)
  from py_find_empty [of st D] locate_nth_empty [of st D n] a [of st n] b c [of n] d e
  show ?thesis by blast
qed

text \<open>The empty anchor in \<^verbatim>\<open>"abc"\<close>, from offset 2 and after the scope anchor \<^verbatim>\<open>"b"\<close>.\<close>

theorem empty_anchor_matches_at_start_witness:
  "py_find ''abc'' [] (int 2) = int 2
   \<and> locate_nth ''abc'' [] (Suc 1) (int 2) = int 2
   \<and> apply_from ''abc'' (int 2) [] (Suc 1) ''X'' = Applied (take 2 ''abc'' @ ''X'' @ drop 2 ''abc'')
   \<and> apply_patch ''abc'' None [] (Suc 1) ''X'' = Applied (''X'' @ ''abc'')
   \<and> apply_patch ''abc'' (Some ''b'') [] (Suc 1) ''X'' = Applied (take 1 ''abc'' @ ''X'' @ drop 1 ''abc'')
   \<and> wrote (patch_api_bind ''b'' [] ''X'' ''abc'') = Some (take 1 ''abc'' @ ''X'' @ drop 1 ''abc'')
   \<and> wrote (patch_nvidia ''b'' [] ''X'' ''abc'') = Some (take 1 ''abc'' @ ''X'' @ drop 1 ''abc'')"
proof -
  have h1: "(2::nat) \<le> length ''abc''" by simp
  have h2: "py_find ''abc'' ''b'' 0 = int 1" by (simp add: py_find_def)
  from empty_anchor_matches_at_start [of 2 "''abc''" 1 "''X''" "''b''" 1] h1 h2
  show ?thesis by blast
qed

subsection \<open>Replacing a literal block\<close>

lemma py_replace_empty_old: "py_replace s [] new = new @ concat (map (\<lambda>c. c # new) s)"
  by (simp add: py_replace.simps)

lemma py_replace_absent: "\<not> sublist old s \<Longrightarrow> py_replace s old new = s"
proof -
  assume a: "\<not> sublist old s"
  then have "old \<noteq> []" by auto
  moreover from a have "py_find s old 0 = - 1" by (rule py_find_unscoped_absent)
  ultimately show ?thesis by (simp add: py_replace.simps)
qed

lemma py_replace_found:
  assumes "old \<noteq> []" and "py_find s old 0 = int p"
  shows "py_replace s old new = take p s @ new @ py_replace (drop (p + length old) s) old new"
  using assms by (subst py_replace.simps) simp

lemma join_Cons: "segs \<noteq> [] \<Longrightarrow> join sep (s # segs) = s @ sep @ join sep segs"
  by (cases segs) simp_all

lemma join_empty_sep: "join [] ([] # map (\<lambda>c. [c]) s @ [[]]) = s"
proof -
  have "join [] (map (\<lambda>c. [c]) s @ [[]]) = s"
    by (induction s) (simp_all add: join_Cons)
  then show ?thesis by (simp add: join_Cons)
qed

lemma join_singletons: "join new (map (\<lambda>c. [c]) s @ [[]]) = concat (map (\<lambda>c. c # new) s)"
  by (induction s) (simp_all add: join_Cons)

lemma py_replace_segments:
  assumes "M \<noteq> []"
  shows "\<exists>segs. segs \<noteq> [] \<and> D = join M segs \<and> py_replace D M R = join R segs
           \<and> (\<forall>s \<in> set (butlast segs). \<not> sublist M (s @ butlast M))
           \<and> \<not> sublist M (last segs)"
proof (induction "length D" arbitrary: D rule: less_induct)
  case less
  from py_find_range [of D M 0] show ?case
  proof
    assume nf: "py_find D M 0 = - 1"
    then have ns: "\<not> sublist M D" by (simp add: py_find_absent_iff)
    then have "py_replace D M R = D" by (rule py_replace_absent)
    with ns have "[D] \<noteq> [] \<and> D = join M [D] \<and> py_replace D M R = join R [D]
           \<and> (\<forall>s \<in> set (butlast [D]). \<not> sublist M (s @ butlast M))
           \<and> \<not> sublist M (last [D])"
      by simp
    then show ?thesis by blast
  next
    assume "\<exists>p. py_find D M 0 = int p"
    then obtain p where p: "py_find D M 0 = int p" ..
    then have p0: "py_find D M (int 0) = int p" by simp
    from py_find_found [OF p0] have occ: "occurs_at D M p"
      and least: "\<forall>q. q < p \<longrightarrow> \<not> occurs_at D M q" by auto
    from occ have b: "p + length M \<le> length D" by (rule occurs_at_bound)
    define rest where "rest = drop (p + length M) D"
    from occ have D: "D = take p D @ M @ rest"
      unfolding rest_def occurs_at_split
      by (metis append_eq_conv_conj append_take_drop_id drop_drop add.commute)
    from b assms have "length rest < length D"
      by (cases M) (simp_all add: rest_def)
    from less [OF this] obtain segs where segs: "segs \<noteq> []" "rest = join M segs"
      "py_replace rest M R = join R segs"
      "\<forall>s \<in> set (butlast segs). \<not> sublist M (s @ butlast M)"
      "\<not> sublist M (last segs)"
      by blast
    have r: "py_replace D M R = take p D @ R @ py_replace rest M R"
      unfolding rest_def using assms p by (rule py_replace_found)
    have first: "\<not> sublist M (take p D @ butlast M)"
    proof
      assume "sublist M (take p D @ butlast M)"
      then obtain q where q: "occurs_at (take p D @ butlast M) M q"
        by (auto simp: sublist_iff_occurs)
      from occurs_at_bound [OF q] b assms have "q < p"
        by (cases M rule: rev_cases) simp_all
      have m: "butlast M @ [last M] = M" using assms by simp
      have "(take p D @ butlast M) @ [last M] @ rest = take p D @ (butlast M @ [last M]) @ rest"
        by simp
      also have "\<dots> = D" unfolding m by (rule D [symmetric])
      finally have "D = (take p D @ butlast M) @ [last M] @ rest" by (rule sym)
      with occurs_at_append_left [OF q, of "[last M] @ rest"] have "occurs_at D M q"
        by simp
      with least \<open>q < p\<close> show False by blast
    qed
    let ?segs = "take p D # segs"
    from segs(1) have "butlast ?segs = take p D # butlast segs" "last ?segs = last segs"
      by simp_all
    with segs first D r have "?segs \<noteq> [] \<and> D = join M ?segs \<and> py_replace D M R = join R ?segs
           \<and> (\<forall>s \<in> set (butlast ?segs). \<not> sublist M (s @ butlast M))
           \<and> \<not> sublist M (last ?segs)"
      by (simp add: join_Cons)
    then show ?thesis by blast
  qed
qed

lemma join_single_if_absent:
  assumes "D = join M segs" and "segs \<noteq> []" and "sublist M D" and "\<not> sublist M (last segs)"
  shows "2 \<le> length segs"
proof (rule ccontr)
  assume "\<not> 2 \<le> length segs"
  with assms(2) obtain s where "segs = [s]"
    by (cases segs) (auto simp: not_le less_Suc_eq)
  with assms show False by simp
qed

text \<open>
  Claim C7. For every document \<open>D\<close>, marker block \<open>M\<close> and replacement block \<open>R\<close>,
  \<^verbatim>\<open>apply_literal_block(D, M, R)\<close>, the \<^verbatim>\<open>content.replace(M, R)\<close> of \<^verbatim>\<open>patch_context.py\<close>,
  leaves \<open>D\<close> as it is when \<open>M\<close> does not occur in it, and otherwise replaces all occurrences
  of \<open>M\<close>, not only the first: \<open>D\<close> is the segments \<open>segs\<close> joined by \<open>M\<close>, the result is the
  same segments joined by \<open>R\<close>, no occurrence of \<open>M\<close> starts in a segment before the match
  that ends it, none is left in the last segment, and there are at least two segments when
  \<open>M\<close> occurs. For the empty marker, which occurs before every character and at the end,
  \<open>R\<close> is put at each of these places. The script writes the result of its two passes.
\<close>

theorem replace_all_occurrences:
  "(\<not> sublist M D \<longrightarrow> py_replace D M R = D)
   \<and> (M \<noteq> [] \<longrightarrow>
        (\<exists>segs. segs \<noteq> [] \<and> D = join M segs \<and> py_replace D M R = join R segs
           \<and> (\<forall>s \<in> set (butlast segs). \<not> sublist M (s @ butlast M))
           \<and> \<not> sublist M (last segs)
           \<and> (sublist M D \<longrightarrow> 2 \<le> length segs)))
   \<and> D = join [] ([] # map (\<lambda>c. [c]) D @ [[]])
   \<and> py_replace D [] R = join R ([] # map (\<lambda>c. [c]) D @ [[]])
   \<and> wrote (patch_context M R M2 R2 D) = Some (py_replace (py_replace D M R) M2 R2)"
proof -
  have a: "\<not> sublist M D \<longrightarrow> py_replace D M R = D"
    by (simp add: py_replace_absent)
  have b: "\<exists>segs. segs \<noteq> [] \<and> D = join M segs \<and> py_replace D M R = join R segs
           \<and> (\<forall>s \<in> set (butlast segs). \<not> sublist M (s @ butlast M))
           \<and> \<not> sublist M (last segs)
           \<and> (sublist M D \<longrightarrow> 2 \<le> length segs)" if "M \<noteq> []"
    using py_replace_segments [OF that, of D R] join_single_if_absent [of D M] by blast
  have c: "D = join [] ([] # map (\<lambda>c. [c]) D @ [[]])"
    by (simp only: join_empty_sep)
  have d: "py_replace D [] R = join R ([] # map (\<lambda>c. [c]) D @ [[]])"
    by (simp add: py_replace_empty_old join_Cons join_singletons)
  have e: "wrote (patch_context M R M2 R2 D) = Some (py_replace (py_replace D M R) M2 R2)"
    by (simp add: patch_context_def)
  from a b c d e show ?thesis by blast
qed

text \<open>A document without the marker, and one that holds it twice.\<close>

theorem replace_all_occurrences_witness:
  "py_replace ''xyz'' ''ab'' ''Q'' = ''xyz''
   \<and> py_replace ''xabyabz'' ''ab'' ''Q'' = ''xQyQz''
   \<and> (\<exists>segs. segs \<noteq> [] \<and> ''xabyabz'' = join ''ab'' segs
          \<and> py_replace ''xabyabz'' ''ab'' ''Q'' = join ''Q'' segs
          \<and> (\<forall>s \<in> set (butlast segs). \<not> sublist ''ab'' (s @ butlast ''ab''))
          \<and> \<not> sublist ''ab'' (last segs)
          \<and> 2 \<le> length segs)"
proof -
  have h1: "\<not> sublist ''ab'' ''xyz''" by code_simp
  have h2: "''ab'' \<noteq> []" by simp
  have h3: "sublist ''ab'' ''xabyabz''" by code_simp
  have v: "py_replace ''xabyabz'' ''ab'' ''Q'' = ''xQyQz''"
    by (simp add: py_replace.simps py_find_def slice_to_def slice_from_def)
  from replace_all_occurrences [of "''ab''" "''xyz''" "''Q''"] h1
  have a: "py_replace ''xyz'' ''ab'' ''Q'' = ''xyz''" by blast
  from replace_all_occurrences [of "''ab''" "''xabyabz''" "''Q''"] h2 h3
  have b: "\<exists>segs. segs \<noteq> [] \<and> ''xabyabz'' = join ''ab'' segs
          \<and> py_replace ''xabyabz'' ''ab'' ''Q'' = join ''Q'' segs
          \<and> (\<forall>s \<in> set (butlast segs). \<not> sublist ''ab'' (s @ butlast ''ab''))
          \<and> \<not> sublist ''ab'' (last segs)
          \<and> 2 \<le> length segs"
    by blast
  from a v b show ?thesis by blast
qed

subsection \<open>Applying a literal block twice\<close>

text \<open>
  Claim C6 says that for every document, marker block and replacement block a second
  \<^verbatim>\<open>apply_literal_block\<close> with the same blocks changes nothing. \<^verbatim>\<open>content.replace\<close> does not
  search the text it has put in, nor the text that a replacement joins together: with the
  marker \<^verbatim>\<open>"a"\<close> and the replacement \<^verbatim>\<open>"aa"\<close> the document \<^verbatim>\<open>"a"\<close> becomes \<^verbatim>\<open>"aa"\<close> and then
  \<^verbatim>\<open>"aaaa"\<close>; with the marker \<^verbatim>\<open>"ab"\<close> and the empty replacement \<^verbatim>\<open>"aabb"\<close> becomes \<^verbatim>\<open>"ab"\<close>
  and then the empty document.
\<close>

theorem literal_block_not_idempotent_counterexample:
  "py_replace ''a'' ''a'' ''aa'' = ''aa''
   \<and> py_replace (py_replace ''a'' ''a'' ''aa'') ''a'' ''aa'' = ''aaaa''
   \<and> py_replace ''aabb'' ''ab'' '''' = ''ab''
   \<and> py_replace (py_replace ''aabb'' ''ab'' '''') ''ab'' '''' = ''''"
  by (simp add: py_replace.simps py_find_def slice_to_def slice_from_def)

lemma sublist_hd_in_set:
  assumes "sublist M X" and "M \<noteq> []"
  shows "hd M \<in> set X"
proof -
  from assms(1) have "set M \<subseteq> set X" by (auto simp: sublist_def)
  with assms(2) show ?thesis by (cases M) auto
qed

lemma no_straddle_split:
  assumes "no_straddle M R" and "M = x1 @ x2" and "x1 \<noteq> []" and "x2 \<noteq> []"
  shows "\<not> prefix x2 R \<and> \<not> prefix R x2"
proof -
  from assms(2-4) have "length x1 \<in> {1 ..< length M}" "drop (length x1) M = x2"
    by (cases x1; simp)+
  with assms(1) show ?thesis unfolding no_straddle_def by blast
qed

lemma marker_not_across:
  assumes M: "M \<noteq> []" and hd: "hd M \<notin> set R" and ns: "no_straddle M R"
    and s: "\<not> sublist M s" and T: "\<not> sublist M T"
  shows "\<not> sublist M (s @ R @ T)"
proof
  assume "sublist M (s @ R @ T)"
  then consider "sublist M s" | "sublist M (R @ T)"
    | x1 x2 where "M = x1 @ x2" "suffix x1 s" "prefix x2 (R @ T)"
    unfolding sublist_append [of M s] by blast
  then show False
  proof cases
    case 1
    with s show False ..
  next
    case 2
    then consider "sublist M R" | "sublist M T"
      | y1 y2 where "M = y1 @ y2" "suffix y1 R" "prefix y2 T"
      unfolding sublist_append [of M R] by blast
    then show False
    proof cases
      case 1
      with M hd show False by (auto dest: sublist_hd_in_set)
    next
      case 2
      with T show False ..
    next
      case 3
      show False
      proof (cases "y1 = []")
        case True
        with 3 have "prefix M T" by simp
        with T show False by (auto simp: prefix_def)
      next
        case False
        with 3(1) have "hd M = hd y1" by simp
        moreover from False have "hd y1 \<in> set y1" by simp
        moreover from 3(2) have "set y1 \<subseteq> set R" by (auto simp: suffix_def)
        ultimately show False using hd by auto
      qed
    qed
  next
    case 3
    show False
    proof (cases "x1 = []")
      case True
      with 3 have "prefix M (R @ T)" by simp
      then consider "prefix M R" | us where "M = R @ us" "prefix us T"
        unfolding prefix_append by blast
      then show False
      proof cases
        case 1
        then have "sublist M R" by (auto simp: prefix_def)
        with M hd show False by (auto dest: sublist_hd_in_set)
      next
        case 2
        show False
        proof (cases "R = []")
          case True
          with 2 T show False by (auto simp: prefix_def)
        next
          case False
          with 2(1) have "hd M \<in> set R" by (cases R) auto
          with hd show False ..
        qed
      qed
    next
      case False
      show False
      proof (cases "x2 = []")
        case True
        with 3 have "suffix M s" by simp
        then have "sublist M s" by (auto simp: suffix_def)
        with s show False ..
      next
        case x2: False
        from no_straddle_split [OF ns 3(1) False x2]
        have n: "\<not> prefix x2 R" "\<not> prefix R x2" by auto
        from 3(3) n(1) obtain us where "x2 = R @ us"
          unfolding prefix_append by blast
        with n(2) show False by simp
      qed
    qed
  qed
qed

lemma join_free:
  assumes "M \<noteq> []" and "hd M \<notin> set R" and "no_straddle M R"
    and "\<forall>s \<in> set segs. \<not> sublist M s"
  shows "\<not> sublist M (join R segs)"
  using assms(4)
proof (induction segs)
  case Nil
  with assms(1) show ?case by simp
next
  case (Cons s segs)
  show ?case
  proof (cases "segs = []")
    case True
    with Cons.prems show ?thesis by simp
  next
    case False
    from Cons have "\<not> sublist M s" "\<not> sublist M (join R segs)" by simp_all
    from marker_not_across [OF assms(1-3) this] False show ?thesis
      by (simp add: join_Cons)
  qed
qed

lemma segments_free:
  assumes "segs \<noteq> []"
    and "\<forall>s \<in> set (butlast segs). \<not> sublist M (s @ butlast M)"
    and "\<not> sublist M (last segs)"
  shows "\<forall>s \<in> set segs. \<not> sublist M s"
proof
  fix s assume "s \<in> set segs"
  with assms(1) have "s \<in> set (butlast segs) \<or> s = last segs"
    by (metis append_butlast_last_id Un_iff set_append list.set(1) list.set(2) insert_iff empty_iff)
  then show "\<not> sublist M s"
  proof
    assume "s \<in> set (butlast segs)"
    with assms(2) have "\<not> sublist M (s @ butlast M)" by blast
    then show ?thesis by (metis sublist_order.order_trans sublist_append_rightI)
  next
    assume "s = last segs"
    with assms(3) show ?thesis by simp
  qed
qed

lemma join_segment_sublist: "s \<in> set segs \<Longrightarrow> sublist s (join sep segs)"
proof (induction segs)
  case Nil
  then show ?case by simp
next
  case (Cons t segs)
  show ?case
  proof (cases "segs = []")
    case True
    with Cons.prems show ?thesis by simp
  next
    case False
    then have j: "join sep (t # segs) = t @ sep @ join sep segs" by (rule join_Cons)
    from Cons.prems have "s = t \<or> s \<in> set segs" by simp
    then show ?thesis
    proof
      assume "s = t"
      then show ?thesis unfolding j by simp
    next
      assume "s \<in> set segs"
      then have "sublist s (join sep segs)" by (rule Cons.IH)
      then show ?thesis unfolding j
        by (metis sublist_order.order_trans sublist_append_leftI append.assoc)
    qed
  qed
qed

lemma py_replace_removes_marker:
  assumes "resolves_cleanly M R"
  shows "\<not> sublist M (py_replace D M R)"
proof -
  from assms have M: "M \<noteq> []" and hd: "hd M \<notin> set R" and ns: "no_straddle M R"
    by (simp_all add: resolves_cleanly_def)
  from py_replace_segments [OF M, of D R] obtain segs where
    segs: "segs \<noteq> []" "py_replace D M R = join R segs"
      "\<forall>s \<in> set (butlast segs). \<not> sublist M (s @ butlast M)" "\<not> sublist M (last segs)"
    by blast
  from segments_free [OF segs(1,3,4)] have "\<forall>s \<in> set segs. \<not> sublist M s" .
  from join_free [OF M hd ns this] segs(2) show ?thesis by simp
qed

lemma py_replace_keeps_absent:
  assumes M': "M' \<noteq> []" and hd: "hd M' \<notin> set R" and ns: "no_straddle M' R"
    and abs: "\<not> sublist M' D"
  shows "\<not> sublist M' (py_replace D M R)"
proof (cases "M = []")
  case True
  have "\<not> sublist M' (join R ([] # map (\<lambda>c. [c]) D @ [[]]))"
  proof (rule join_free [OF M' hd ns], rule ballI)
    fix s assume "s \<in> set ([] # map (\<lambda>c. [c]) D @ [[]])"
    then have "s = [] \<or> (\<exists>c \<in> set D. s = [c])" by auto
    then show "\<not> sublist M' s"
    proof
      assume "s = []"
      with M' show ?thesis by simp
    next
      assume "\<exists>c \<in> set D. s = [c]"
      then obtain c where c: "c \<in> set D" "s = [c]" by blast
      then have "sublist s D" by (metis sublist_def in_set_conv_decomp append_Cons append_Nil)
      with abs show ?thesis by (metis sublist_order.order_trans)
    qed
  qed
  with True show ?thesis
    by (simp add: py_replace_empty_old join_Cons join_singletons)
next
  case False
  from py_replace_segments [OF False, of D R] obtain segs where
    segs: "segs \<noteq> []" "D = join M segs" "py_replace D M R = join R segs"
    by blast
  have "\<forall>s \<in> set segs. \<not> sublist M' s"
  proof
    fix s assume "s \<in> set segs"
    then have "sublist s D" unfolding segs(2) by (rule join_segment_sublist)
    with abs show "\<not> sublist M' s" by (metis sublist_order.order_trans)
  qed
  from join_free [OF M' hd ns this] segs(3) show ?thesis by simp
qed

lemma comparable_tail_iff:
  "comparable_tail xs R \<longleftrightarrow>
     (\<exists>k < length xs. prefix (drop k xs) R \<or> prefix R (drop k xs))"
proof (induction xs)
  case Nil
  then show ?case by simp
next
  case (Cons c cs)
  have "(\<exists>k < length (c # cs). prefix (drop k (c # cs)) R \<or> prefix R (drop k (c # cs))) \<longleftrightarrow>
      (prefix (c # cs) R \<or> prefix R (c # cs))
      \<or> (\<exists>k < length cs. prefix (drop k cs) R \<or> prefix R (drop k cs))"
    (is "?L \<longleftrightarrow> ?A \<or> ?B")
  proof
    assume ?L
    then obtain k where k: "k < length (c # cs)"
      "prefix (drop k (c # cs)) R \<or> prefix R (drop k (c # cs))" by blast
    show "?A \<or> ?B"
    proof (cases k)
      case 0
      with k show ?thesis by simp
    next
      case (Suc j)
      with k have "j < length cs" "prefix (drop j cs) R \<or> prefix R (drop j cs)" by simp_all
      then show ?thesis by blast
    qed
  next
    assume "?A \<or> ?B"
    then show ?L
    proof
      assume ?A
      then have "0 < length (c # cs) \<and> (prefix (drop 0 (c # cs)) R \<or> prefix R (drop 0 (c # cs)))"
        by simp
      then show ?L by blast
    next
      assume ?B
      then obtain j where "j < length cs" "prefix (drop j cs) R \<or> prefix R (drop j cs)" by blast
      then have "Suc j < length (c # cs)
          \<and> (prefix (drop (Suc j) (c # cs)) R \<or> prefix R (drop (Suc j) (c # cs)))"
        by simp
      then show ?L by blast
    qed
  qed
  with Cons.IH show ?case by simp
qed

lemma no_straddle_check: "no_straddle M R \<longleftrightarrow> \<not> comparable_tail (tl M) R"
proof -
  have "(\<exists>k < length (tl M). prefix (drop k (tl M)) R \<or> prefix R (drop k (tl M))) \<longleftrightarrow>
      (\<exists>k \<in> {1 ..< length M}. prefix (drop k M) R \<or> prefix R (drop k M))"
    (is "?L \<longleftrightarrow> ?R")
  proof
    assume ?L
    then obtain k where "k < length (tl M)" "prefix (drop k (tl M)) R \<or> prefix R (drop k (tl M))"
      by blast
    then have "Suc k \<in> {1 ..< length M}
        \<and> (prefix (drop (Suc k) M) R \<or> prefix R (drop (Suc k) M))"
      by (simp add: drop_Suc less_diff_conv)
    then show ?R by blast
  next
    assume ?R
    then obtain k where k: "k \<in> {1 ..< length M}" "prefix (drop k M) R \<or> prefix R (drop k M)"
      by blast
    then obtain j where j: "k = Suc j" by (cases k) auto
    with k have "j < length (tl M) \<and> (prefix (drop j (tl M)) R \<or> prefix R (drop j (tl M)))"
      by (auto simp: drop_Suc)
    then show ?L by blast
  qed
  then show ?thesis unfolding no_straddle_def comparable_tail_iff by blast
qed

lemma conflict_1_clean: "resolves_cleanly conflict_1 replacement_1"
  by (simp add: resolves_cleanly_def no_straddle_check conflict_1_def replacement_1_def)

lemma conflict_2_clean: "resolves_cleanly conflict_2 replacement_2"
  by (simp add: resolves_cleanly_def no_straddle_check conflict_2_def replacement_2_def)

lemma conflict_1_not_from_replacement_2:
  "hd conflict_1 \<notin> set replacement_2 \<and> no_straddle conflict_1 replacement_2"
  by (simp add: no_straddle_check conflict_1_def replacement_2_def)

lemma patch_context_py_wrote:
  "wrote (patch_context_py content) =
     Some (py_replace (py_replace content conflict_1 replacement_1) conflict_2 replacement_2)"
  by (simp add: patch_context_py_def patch_context_def)

lemma patch_context_py_fixpoint:
  assumes "wrote (patch_context_py content) = Some content'"
  shows "wrote (patch_context_py content') = Some content'"
proof -
  define X where "X = py_replace content conflict_1 replacement_1"
  from assms have c': "content' = py_replace X conflict_2 replacement_2"
    by (simp add: patch_context_py_wrote X_def)
  have "\<not> sublist conflict_1 X"
    unfolding X_def using conflict_1_clean by (rule py_replace_removes_marker)
  with conflict_1_not_from_replacement_2 conflict_1_clean
  have n1: "\<not> sublist conflict_1 content'"
    unfolding c' by (intro py_replace_keeps_absent) (simp_all add: resolves_cleanly_def)
  have n2: "\<not> sublist conflict_2 content'"
    unfolding c' using conflict_2_clean by (rule py_replace_removes_marker)
  from n1 n2 show ?thesis
    by (simp add: patch_context_py_wrote py_replace_absent)
qed

text \<open>
  Claim C6, as the code has it. A second application changes nothing, because the first
  result holds no marker, whenever the marker block is not empty, its first character does
  not occur in the replacement block, and no proper non-empty suffix of the marker is a
  prefix of the replacement or has the replacement as a prefix. Both pairs of blocks of
  \<^verbatim>\<open>patch_context.py\<close> are of this kind, and a second run of the script on the file that a
  first run wrote writes the same file again.
\<close>

theorem literal_block_idempotent_when_clean:
  "(resolves_cleanly M R \<longrightarrow>
      \<not> sublist M (py_replace D M R)
      \<and> py_replace (py_replace D M R) M R = py_replace D M R)
   \<and> resolves_cleanly conflict_1 replacement_1
   \<and> resolves_cleanly conflict_2 replacement_2
   \<and> (wrote (patch_context_py content) = Some content'
        \<longrightarrow> wrote (patch_context_py content') = Some content')"
proof -
  have a: "\<not> sublist M (py_replace D M R)
      \<and> py_replace (py_replace D M R) M R = py_replace D M R" if "resolves_cleanly M R"
    using py_replace_removes_marker [OF that, of D] by (simp add: py_replace_absent)
  from a conflict_1_clean conflict_2_clean patch_context_py_fixpoint
  show ?thesis by blast
qed

text \<open>
  A small marker with a replacement of this kind, and the script on a file made of its two
  conflict blocks.
\<close>

theorem literal_block_idempotent_when_clean_witness:
  "resolves_cleanly ''<<a>>'' ''b''
   \<and> \<not> sublist ''<<a>>'' (py_replace ''x<<a>>y<<a>>'' ''<<a>>'' ''b'')
   \<and> py_replace (py_replace ''x<<a>>y<<a>>'' ''<<a>>'' ''b'') ''<<a>>'' ''b''
       = py_replace ''x<<a>>y<<a>>'' ''<<a>>'' ''b''
   \<and> wrote (patch_context_py (conflict_1 @ nl @ conflict_2))
       = Some (replacement_1 @ nl @ replacement_2)
   \<and> wrote (patch_context_py (replacement_1 @ nl @ replacement_2))
       = Some (replacement_1 @ nl @ replacement_2)"
proof -
  have h1: "resolves_cleanly ''<<a>>'' ''b''"
    by (simp add: resolves_cleanly_def no_straddle_check)
  have h2: "wrote (patch_context_py (conflict_1 @ nl @ conflict_2))
       = Some (replacement_1 @ nl @ replacement_2)"
    by (simp add: patch_context_py_def patch_context_def py_replace.simps py_find_def
        slice_to_def slice_from_def conflict_1_def conflict_2_def replacement_1_def
        replacement_2_def)
  from literal_block_idempotent_when_clean
    [of "''<<a>>''" "''b''" "''x<<a>>y<<a>>''" "conflict_1 @ nl @ conflict_2"
        "replacement_1 @ nl @ replacement_2"] h1 h2
  show ?thesis by blast
qed

end
